theory Spec2Isabelle
  imports Complex_Main "HOL-Library.Sublist"
begin

section \<open>Python strings\<close>

text \<open>
  A Python \<open>str\<close> is a sequence of code points. The model uses \<^typ>\<open>string\<close>, whose
  characters are the code points U+0000 to U+00FF; the character classes below are
  Python's for that range. The one constant of the sources outside the range is the
  bullet of the prompt template, which only the completion service reads.
\<close>

definition py_isspace :: "char \<Rightarrow> bool" where
  \<comment> \<open>\<open>str.isspace\<close>, the characters \<open>str.strip()\<close> and \<open>str.split()\<close> remove, and \<open>\s\<close>\<close>
  "py_isspace c = (let n = (of_char c :: nat) in
     (9 \<le> n \<and> n \<le> 13) \<or> (28 \<le> n \<and> n \<le> 32) \<or> n = 133 \<or> n = 160)"

definition lower_char :: "char \<Rightarrow> char" where
  "lower_char c = (let n = (of_char c :: nat) in
     if (65 \<le> n \<and> n \<le> 90) \<or> (192 \<le> n \<and> n \<le> 222 \<and> n \<noteq> 215)
     then char_of (n + 32) else c)"

definition lower :: "string \<Rightarrow> string" where
  "lower s = map lower_char s"

definition strip :: "string \<Rightarrow> string" where
  "strip s = rev (dropWhile py_isspace (rev (dropWhile py_isspace s)))"

fun contains :: "string \<Rightarrow> string \<Rightarrow> bool" where
  \<comment> \<open>\<open>needle in hay\<close>\<close>
  "contains needle [] = (needle = [])"
| "contains needle (c # cs) = (prefix needle (c # cs) \<or> contains needle cs)"

fun replace_from :: "string \<Rightarrow> string \<Rightarrow> nat \<Rightarrow> string \<Rightarrow> string" where
  \<comment> \<open>the scan of \<open>str.replace\<close> for a non-empty \<open>old\<close>; \<open>skip\<close> characters of the
      occurrence just replaced are still to be passed over\<close>
  "replace_from old new skip [] = []"
| "replace_from old new skip (c # cs) =
     (if 0 < skip then replace_from old new (skip - 1) cs
      else if prefix old (c # cs) then new @ replace_from old new (length old - 1) cs
      else c # replace_from old new 0 cs)"

definition replace :: "string \<Rightarrow> string \<Rightarrow> string \<Rightarrow> string" where
  \<comment> \<open>\<open>s.replace(old, new)\<close>: occurrences from the left, not overlapping\<close>
  "replace old new s =
     (if old = [] then new @ concat (map (\<lambda>c. c # new) s) else replace_from old new 0 s)"

fun split_count :: "bool \<Rightarrow> string \<Rightarrow> nat" where
  \<comment> \<open>\<open>len(s.split())\<close>: the number of maximal runs of non-whitespace; the flag says
      that the scan is inside such a run\<close>
  "split_count inword [] = 0"
| "split_count inword (c # cs) =
     (if py_isspace c then split_count False cs
      else (if inword then 0 else 1) + split_count True cs)"

fun str_nat :: "nat \<Rightarrow> string" where
  \<comment> \<open>\<open>str(n)\<close>\<close>
  "str_nat n = (if n < 10 then [char_of (48 + n)]
                else str_nat (n div 10) @ [char_of (48 + n mod 10)])"

fun join :: "string \<Rightarrow> string list \<Rightarrow> string" where
  "join sep [] = []"
| "join sep [x] = x"
| "join sep (x # y # ys) = x @ sep @ join sep (y # ys)"

datatype error =
    ModelError | EncodeError | IndexError | AssertionError
  | OSError | UnpicklingError | ServiceError


section \<open>retrieval\_qa.py\<close>

type_synonym 'm hit = "string \<times> real \<times> 'm"

text \<open>
  What \<open>generate_medical_response\<close> calls outside its module. \<open>search\<close> is
  \<open>similarity_search\<close> as imported (it may raise); \<open>chat_completion\<close> is
  \<open>groq_client.chat.completions.create(...).choices[0].message.content\<close> with the
  fixed model parameters, given the number of calls this request has issued before
  (the service is not a function of the prompt alone) and the prompt; it may raise.
  \<open>score_2f\<close> is the float format \<open>{score:.2f}\<close>.
\<close>

record 'm world =
  search :: "string \<Rightarrow> nat \<Rightarrow> error + 'm hit list"
  chat_completion :: "nat \<Rightarrow> string \<Rightarrow> error + string"
  score_2f :: "real \<Rightarrow> string"

definition bullet :: string where
  \<comment> \<open>U+2022, written as its three UTF-8 bytes\<close>
  "bullet = [char_of (226 :: nat), char_of (128 :: nat), char_of (162 :: nat)]"

definition create_medical_prompt_template :: "string \<times> string \<times> string" where
  \<comment> \<open>the template, cut at \<open>{context}\<close> and \<open>{question}\<close>\<close>
  "create_medical_prompt_template =
   (''You are a highly knowledgeable and professional medical assistant. Use the medical context provided below, along with your general medical knowledge, to generate accurate, helpful, and easy-to-understand responses to the user's question.\<newline>\<newline>Instructions:\<newline>''
    @ bullet @ '' Prioritize information found in the medical context whenever relevant.\<newline>''
    @ bullet @ '' If specific details are not present in the context, provide a reliable and informative response based on your broader medical knowledge'' @ [char_of (226 :: nat), char_of (128 :: nat), char_of (148 :: nat)] @ ''without stating that the context is lacking.\<newline>''
    @ bullet @ '' Structure your response using clear formatting, such as bullet points ('' @ bullet @ '') or numbered lists, where appropriate. But dont use +.\<newline>''
    @ bullet @ '' Use professional yet approachable language suitable for both medical professionals and laypersons.\<newline>''
    @ bullet @ '' Explain complex medical terms in simple language when needed.\<newline>''
    @ bullet @ '' Do not mention the absence or presence of information in the context. Focus on delivering a complete and helpful answer.\<newline>\<newline>Medical Context:\<newline>'',
    ''\<newline>\<newline>User Question:\<newline>'',
    ''\<newline>\<newline>Answer:'')"

definition prompt_format :: "string \<times> string \<times> string \<Rightarrow> string \<Rightarrow> string \<Rightarrow> string" where
  \<comment> \<open>\<open>prompt_template.format(context=context, question=query)\<close>\<close>
  "prompt_format t context question = (case t of (a, b, c) \<Rightarrow> a @ context @ b @ question @ c)"

definition context_piece :: "(real \<Rightarrow> string) \<Rightarrow> nat \<times> 'm hit \<Rightarrow> string" where
  "context_piece fmt p = (case p of (i, text, score, metadata) \<Rightarrow>
     ''[Source '' @ str_nat i @ '' - Relevance: '' @ fmt score @ '']\<newline>'' @ strip text)"

definition retrieve_relevant_context :: "'m world \<Rightarrow> string \<Rightarrow> nat \<Rightarrow> error + string" where
  "retrieve_relevant_context w query top_k =
     (case search w query top_k of
        Inl e \<Rightarrow> Inl e
      | Inr results \<Rightarrow>
          if results = [] then Inr ''No relevant medical information found in the knowledge base.''
          else
            let contexts = map (context_piece (score_2f w)) (zip [1 ..< Suc (length results)] results)
            in Inr (''\<newline>\<newline>'' @ replicate 50 CHR ''='' @ join ''\<newline>\<newline>'' contexts))"

definition vague_phrases :: "string list" where
  "vague_phrases =
     [''I'm sorry'', ''I don't know'', ''insufficient information'',
      ''not enough context'', ''I cannot provide'', ''I am unable'']"

definition is_response_complete :: "string \<Rightarrow> bool" where
  "is_response_complete response =
     (if response = [] \<or> length response < 80 then False
      else \<not> list_ex (\<lambda>phrase. contains (lower phrase) (lower response)) vague_phrases)"

definition format_medical_response :: "string \<Rightarrow> string" where
  "format_medical_response response0 =
     (let response1 = replace ''**'' '''' response0;
          response2 = replace ''*'' '''' response1;
          response3 = replace ''\<newline>\<newline>\<newline>'' ''\<newline>\<newline>'' response2;
          response4 = strip response3;
          disclaimer = ''''
      in if \<not> suffix (strip disclaimer) response4 then response4 @ disclaimer else response4)"

definition max_top_k :: nat where
  "max_top_k = 12"

definition apology :: string where
  "apology = ''I apologize, but I encountered an error while processing your medical question. Please try rephrasing your question or consult a healthcare professional directly.''"

text \<open>
  The \<open>while\<close> loop of \<open>generate_medical_response\<close>, from the state
  \<open>(top_k, retries, final_response)\<close>. An exception leaves the loop as \<open>Inl\<close>. The
  last argument is not a variable of the source: it records the breadths at which the
  completion service has been called, so that the calls can be counted.
\<close>

function critic_loop ::
  "'m world \<Rightarrow> string \<Rightarrow> nat \<Rightarrow> nat \<Rightarrow> string \<Rightarrow> nat list \<Rightarrow> (error + string) \<times> nat list" where
  "critic_loop w query top_k retries final_response calls =
     (if top_k \<le> max_top_k then
        (case retrieve_relevant_context w query top_k of
           Inl e \<Rightarrow> (Inl e, calls)
         | Inr context \<Rightarrow>
             (case chat_completion w retries
                     (prompt_format create_medical_prompt_template context query) of
                Inl e \<Rightarrow> (Inl e, calls @ [top_k])
              | Inr response \<Rightarrow>
                  let formatted_response = format_medical_response response in
                  if is_response_complete formatted_response
                  then (Inr formatted_response, calls @ [top_k])
                  else critic_loop w query (top_k + 1) (retries + 1) formatted_response
                         (calls @ [top_k])))
      else (Inr final_response, calls))"
  by pat_completeness auto
termination
  by (relation "measure (\<lambda>(w, query, top_k, retries, final_response, calls). 13 - top_k)")
     (auto simp: max_top_k_def)

declare critic_loop.simps [simp del]

definition generate_medical_response :: "'m world \<Rightarrow> string \<Rightarrow> string" where
  \<comment> \<open>the \<open>try\<close> around the loop: every exception becomes the apology\<close>
  "generate_medical_response w query =
     (case fst (critic_loop w query 3 0 [] []) of Inl e \<Rightarrow> apology | Inr r \<Rightarrow> r)"

definition completion_calls :: "'m world \<Rightarrow> string \<Rightarrow> nat list" where
  \<comment> \<open>the breadths at which one request calls the completion service, in order\<close>
  "completion_calls w query = snd (critic_loop w query 3 0 [] [])"

definition draft :: "'m world \<Rightarrow> string \<Rightarrow> nat \<Rightarrow> nat \<Rightarrow> error + string" where
  \<comment> \<open>one pass of the loop body at breadth \<open>top_k\<close>, as call number \<open>retries\<close>: the
      candidate answer, or the exception of retrieval or of the completion service\<close>
  "draft w query top_k retries =
     (case retrieve_relevant_context w query top_k of
        Inl e \<Rightarrow> Inl e
      | Inr context \<Rightarrow>
          (case chat_completion w retries
                  (prompt_format create_medical_prompt_template context query) of
             Inl e \<Rightarrow> Inl e
           | Inr response \<Rightarrow> Inr (format_medical_response response)))"

definition rejected :: "'m world \<Rightarrow> string \<Rightarrow> nat \<Rightarrow> bool" where
  \<comment> \<open>pass \<open>i\<close> (breadth \<open>3 + i\<close>) produces a candidate and the critic rejects it\<close>
  "rejected w query i =
     (case draft w query (3 + i) i of Inl e \<Rightarrow> False | Inr c \<Rightarrow> \<not> is_response_complete c)"

definition medical_indicators :: "string list" where
  "medical_indicators =
     [''symptom'', ''disease'', ''condition'', ''treatment'', ''medicine'', ''medication'',
      ''diagnosis'', ''doctor'', ''hospital'', ''pain'', ''fever'', ''infection'',
      ''medical'', ''health'', ''illness'', ''therapy'', ''surgery'', ''procedure'',
      ''blood'', ''heart'', ''lung'', ''brain'', ''liver'', ''kidney'', ''cancer'',
      ''diabetes'', ''hypertension'', ''pneumonia'', ''what is'', ''how to treat'',
      ''causes of'', ''prevention'', ''cure'', ''relief'']"

definition validate_medical_query :: "string \<Rightarrow> bool" where
  "validate_medical_query query =
     (let query_lower = lower query
      in list_ex (\<lambda>indicator. contains indicator query_lower) medical_indicators)"


section \<open>vector\_database.py\<close>

text \<open>
  The module's globals are the fields of a store. Embedding vectors are values of a
  type \<open>'v\<close>: no claim depends on the floats inside. A FAISS index is its dimension
  and its rows, \<open>ntotal\<close> being the number of rows; \<open>faiss.IndexHNSWFlat(dimension, 32)\<close>
  names no metric, so the index is built with the library's default, \<open>METRIC_L2\<close>.
\<close>

datatype metric = METRIC_L2 | METRIC_INNER_PRODUCT

record 'v faiss_index =
  d :: nat
  hnsw_M :: nat
  efSearch :: nat
  efConstruction :: nat
  metric_type :: metric
  vectors :: "'v list"

definition ntotal :: "'v faiss_index \<Rightarrow> nat" where
  "ntotal idx = length (vectors idx)"

record ('v, 'm) store =
  vector_index :: "'v faiss_index option"
  vector_texts :: "string list"
  vector_metadatas :: "'m list"
  embedding_model :: bool
  dimension :: "nat option"

text \<open>
  The two libraries. Loading the sentence-embedding model may raise
  (\<open>model_fault\<close>); so may encoding a batch (\<open>encode_fault\<close>); otherwise the
  encoder returns one row of dimension \<open>model_dim\<close> per text, in order. \<open>renorm\<close>
  is the L2 normalisation of one row. \<open>index_search\<close> is
  \<open>vector_index.search(query_embedding, k)\<close> read as \<open>zip(scores[0], indices[0])\<close>:
  the values and positions the index reports, in its order, \<open>-1\<close> for a missing
  neighbour.
\<close>

record 'v library =
  model_fault :: "error option"
  model_dim :: nat
  embed :: "string \<Rightarrow> 'v"
  encode_fault :: "string list \<Rightarrow> error option"
  renorm :: "'v \<Rightarrow> 'v"
  index_search :: "'v faiss_index \<Rightarrow> 'v \<Rightarrow> nat \<Rightarrow> (real \<times> int) list"

record 'm chunk =
  chunk_text :: string
  chunk_metadata :: 'm

definition initialize_embeddings ::
  "'v library \<Rightarrow> ('v, 'm) store \<Rightarrow> (error + nat) \<times> ('v, 'm) store" where
  "initialize_embeddings lib s =
     (case model_fault lib of
        Some e \<Rightarrow> (Inl e, s)
      | None \<Rightarrow> (Inr (model_dim lib),
                 s\<lparr>embedding_model := True, dimension := Some (model_dim lib)\<rparr>))"

definition IndexHNSWFlat :: "nat \<Rightarrow> nat \<Rightarrow> 'v faiss_index" where
  "IndexHNSWFlat dimn m =
     \<lparr>d = dimn, hnsw_M = m, efSearch = 16, efConstruction = 40,
      metric_type = METRIC_L2, vectors = []\<rparr>"

definition new_index :: "nat \<Rightarrow> 'v faiss_index" where
  "new_index dimn = (IndexHNSWFlat dimn 32)\<lparr>efSearch := 64, efConstruction := 40\<rparr>"

definition create_vector_index ::
  "'v library \<Rightarrow> ('v, 'm) store \<Rightarrow> (error + unit) \<times> ('v, 'm) store" where
  "create_vector_index lib s =
     (case dimension s of
        Some dimn \<Rightarrow> (Inr (), s\<lparr>vector_index := Some (new_index dimn)\<rparr>)
      | None \<Rightarrow>
          (case initialize_embeddings lib s of
             (Inl e, s1) \<Rightarrow> (Inl e, s1)
           | (Inr dimn, s1) \<Rightarrow> (Inr (), s1\<lparr>vector_index := Some (new_index dimn)\<rparr>)))"

definition encode :: "'v library \<Rightarrow> string list \<Rightarrow> error + 'v list" where
  \<comment> \<open>\<open>embedding_model.encode(batch, ...)\<close>\<close>
  "encode lib batch =
     (case encode_fault lib batch of Some e \<Rightarrow> Inl e | None \<Rightarrow> Inr (map (embed lib) batch))"

function encode_batches :: "'v library \<Rightarrow> string list \<Rightarrow> error + 'v list" where
  \<comment> \<open>the loop \<open>for i in range(0, len(texts), batch_size)\<close>, on the texts from \<open>i\<close> on\<close>
  "encode_batches lib texts =
     (if texts = [] then Inr []
      else (case encode lib (take 32 texts) of
              Inl e \<Rightarrow> Inl e
            | Inr embeddings \<Rightarrow>
                (case encode_batches lib (drop 32 texts) of
                   Inl e \<Rightarrow> Inl e
                 | Inr all_embeddings \<Rightarrow> Inr (embeddings @ all_embeddings))))"
  by pat_completeness auto
termination
  by (relation "measure (\<lambda>(lib, texts). length texts)") auto

declare encode_batches.simps [simp del]

definition generate_embeddings ::
  "'v library \<Rightarrow> ('v, 'm) store \<Rightarrow> string list \<Rightarrow> (error + 'v list) \<times> ('v, 'm) store" where
  "generate_embeddings lib s texts =
     (case (if embedding_model s then (Inr (model_dim lib), s) else initialize_embeddings lib s) of
        (Inl e, s1) \<Rightarrow> (Inl e, s1)
      | (Inr dimn, s1) \<Rightarrow> (encode_batches lib texts, s1))"

definition normalize_L2 :: "'v library \<Rightarrow> 'v list \<Rightarrow> error + 'v list" where
  \<comment> \<open>\<open>faiss.normalize_L2(x)\<close> reads \<open>x.shape[1]\<close>; the array of no rows has shape \<open>(0,)\<close>\<close>
  "normalize_L2 lib rows = (if rows = [] then Inl IndexError else Inr (map (renorm lib) rows))"

definition index_add :: "'v library \<Rightarrow> 'v faiss_index \<Rightarrow> 'v list \<Rightarrow> error + 'v faiss_index" where
  \<comment> \<open>\<open>vector_index.add(embeddings)\<close> asserts that the rows have the index's dimension\<close>
  "index_add lib idx rows =
     (if model_dim lib \<noteq> d idx then Inl AssertionError
      else Inr (idx\<lparr>vectors := vectors idx @ rows\<rparr>))"

definition add_to_vector_database ::
  "'v library \<Rightarrow> ('v, 'm) store \<Rightarrow> 'm chunk list \<Rightarrow> (error + unit) \<times> ('v, 'm) store" where
  "add_to_vector_database lib s chunks =
     (case (if vector_index s = None then create_vector_index lib s else (Inr (), s)) of
        (Inl e, s1) \<Rightarrow> (Inl e, s1)
      | (Inr u, s1) \<Rightarrow>
          let texts = map chunk_text chunks;
              metadatas = map chunk_metadata chunks
          in (case generate_embeddings lib s1 texts of
                (Inl e, s2) \<Rightarrow> (Inl e, s2)
              | (Inr embeddings, s2) \<Rightarrow>
                  (case normalize_L2 lib embeddings of
                     Inl e \<Rightarrow> (Inl e, s2)
                   | Inr normalized \<Rightarrow>
                       (case vector_index s2 of
                          None \<Rightarrow> (Inl AssertionError, s2)
                        | Some idx \<Rightarrow>
                            (case index_add lib idx normalized of
                               Inl e \<Rightarrow> (Inl e, s2)
                             | Inr idx' \<Rightarrow>
                                 (Inr (),
                                  s2\<lparr>vector_index := Some idx',
                                     vector_texts := vector_texts s2 @ texts,
                                     vector_metadatas := vector_metadatas s2 @ metadatas\<rparr>))))))"

definition py_get :: "'a list \<Rightarrow> int \<Rightarrow> error + 'a" where
  \<comment> \<open>\<open>xs[i]\<close>: a negative index counts from the end, an index out of range raises\<close>
  "py_get xs i =
     (if 0 \<le> i \<and> i < int (length xs) then Inr (xs ! nat i)
      else if i < 0 \<and> - int (length xs) \<le> i then Inr (xs ! nat (int (length xs) + i))
      else Inl IndexError)"

fun collect :: "string list \<Rightarrow> 'm list \<Rightarrow> (real \<times> int) list \<Rightarrow> error + 'm hit list" where
  \<comment> \<open>the loop \<open>for score, idx in zip(scores[0], indices[0])\<close>\<close>
  "collect texts metadatas [] = Inr []"
| "collect texts metadatas ((score, idx) # rest) =
     (if idx \<noteq> - 1 \<and> score > 0.3 then
        (case py_get texts idx of
           Inl e \<Rightarrow> Inl e
         | Inr t \<Rightarrow>
             (case py_get metadatas idx of
                Inl e \<Rightarrow> Inl e
              | Inr m \<Rightarrow>
                  (case collect texts metadatas rest of
                     Inl e \<Rightarrow> Inl e
                   | Inr results \<Rightarrow> Inr ((t, score, m) # results))))
      else collect texts metadatas rest)"

definition faiss_search ::
  "'v library \<Rightarrow> 'v faiss_index \<Rightarrow> 'v \<Rightarrow> nat \<Rightarrow> error + (real \<times> int) list" where
  \<comment> \<open>\<open>vector_index.search\<close> asserts the query's dimension and \<open>k > 0\<close>\<close>
  "faiss_search lib idx q k =
     (if model_dim lib \<noteq> d idx \<or> k = 0 then Inl AssertionError
      else Inr (index_search lib idx q k))"

definition similarity_search ::
  "'v library \<Rightarrow> ('v, 'm) store \<Rightarrow> string \<Rightarrow> nat \<Rightarrow> (error + 'm hit list) \<times> ('v, 'm) store" where
  "similarity_search lib s query k =
     (case vector_index s of
        None \<Rightarrow> (Inr [], s)
      | Some idx \<Rightarrow>
          if ntotal idx = 0 then (Inr [], s)
          else
            (case (if embedding_model s then (Inr (model_dim lib), s)
                   else initialize_embeddings lib s) of
               (Inl e, s1) \<Rightarrow> (Inl e, s1)
             | (Inr dimn, s1) \<Rightarrow>
                 (case encode lib [query] of
                    Inl e \<Rightarrow> (Inl e, s1)
                  | Inr query_embedding \<Rightarrow>
                      (case normalize_L2 lib query_embedding of
                         Inl e \<Rightarrow> (Inl e, s1)
                       | Inr normalized \<Rightarrow>
                           (case faiss_search lib idx (hd normalized) k of
                              Inl e \<Rightarrow> (Inl e, s1)
                            | Inr hits \<Rightarrow>
                                (collect (vector_texts s1) (vector_metadatas s1) hits, s1))))))"

text \<open>
  Files: a path holds a blob, which is an index as \<open>faiss.write_index\<close> wrote it, the
  pickled dictionary of texts, metadata and dimension, or bytes that neither reader
  accepts. A directory that cannot be made and a file that cannot be written are the
  faults of the file system.
\<close>

datatype ('v, 'm) blob =
    FaissBlob "'v faiss_index"
  | PickleBlob "string list" "'m list" "nat option"
  | Corrupt

record disk_faults =
  makedirs_fault :: "string \<Rightarrow> error option"
  write_fault :: "string \<Rightarrow> error option"

type_synonym ('v, 'm) files = "string \<Rightarrow> ('v, 'm) blob option"

definition dirname :: "string \<Rightarrow> string" where
  \<comment> \<open>\<open>os.path.dirname\<close> (POSIX)\<close>
  "dirname p =
     (let head = rev (dropWhile (\<lambda>c. c \<noteq> CHR ''/'') (rev p))
      in if head \<noteq> [] \<and> \<not> list_all (\<lambda>c. c = CHR ''/'') head
         then rev (dropWhile (\<lambda>c. c = CHR ''/'') (rev head)) else head)"

definition read_index :: "('v, 'm) blob \<Rightarrow> error + 'v faiss_index" where
  "read_index b = (case b of FaissBlob idx \<Rightarrow> Inr idx | _ \<Rightarrow> Inl OSError)"

definition pickle_load :: "('v, 'm) blob \<Rightarrow> error + string list \<times> 'm list \<times> nat option" where
  "pickle_load b =
     (case b of PickleBlob texts metadatas dimn \<Rightarrow> Inr (texts, metadatas, dimn)
      | _ \<Rightarrow> Inl UnpicklingError)"

definition save_vector_database ::
  "disk_faults \<Rightarrow> ('v, 'm) store \<Rightarrow> ('v, 'm) files \<Rightarrow> string \<Rightarrow> (error + unit) \<times> ('v, 'm) files" where
  "save_vector_database io s fs path =
     (case makedirs_fault io (dirname path) of
        Some e \<Rightarrow> (Inl e, fs)
      | None \<Rightarrow>
          (case (case vector_index s of
                   None \<Rightarrow> (Inr (), fs)
                 | Some idx \<Rightarrow>
                     if ntotal idx > 0 then
                       (case write_fault io (path @ ''.faiss'') of
                          Some e \<Rightarrow> (Inl e, fs)
                        | None \<Rightarrow> (Inr (), fs(path @ ''.faiss'' \<mapsto> FaissBlob idx)))
                     else (Inr (), fs)) of
             (Inl e, fs1) \<Rightarrow> (Inl e, fs1)
           | (Inr u, fs1) \<Rightarrow>
               (case write_fault io (path @ ''.pkl'') of
                  Some e \<Rightarrow> (Inl e, fs1)
                | None \<Rightarrow>
                    (Inr (),
                     fs1(path @ ''.pkl'' \<mapsto>
                         PickleBlob (vector_texts s) (vector_metadatas s) (dimension s))))))"

definition load_steps ::
  "'v library \<Rightarrow> ('v, 'm) files \<Rightarrow> ('v, 'm) store \<Rightarrow> string \<Rightarrow> (error + unit) \<times> ('v, 'm) store" where
  \<comment> \<open>the body of the \<open>try\<close> of \<open>load_vector_database\<close>\<close>
  "load_steps lib fs s path =
     (case (case fs (path @ ''.faiss'') of
              None \<Rightarrow> (Inr (), s)
            | Some b \<Rightarrow>
                (case read_index b of
                   Inl e \<Rightarrow> (Inl e, s)
                 | Inr idx \<Rightarrow> (Inr (), s\<lparr>vector_index := Some idx\<rparr>))) of
        (Inl e, s1) \<Rightarrow> (Inl e, s1)
      | (Inr u, s1) \<Rightarrow>
          (case (case fs (path @ ''.pkl'') of
                   None \<Rightarrow> (Inr (), s1)
                 | Some b \<Rightarrow>
                     (case pickle_load b of
                        Inl e \<Rightarrow> (Inl e, s1)
                      | Inr (texts, metadatas, dimn) \<Rightarrow>
                          (Inr (), s1\<lparr>vector_texts := texts, vector_metadatas := metadatas,
                                      dimension := dimn\<rparr>))) of
             (Inl e, s2) \<Rightarrow> (Inl e, s2)
           | (Inr u, s2) \<Rightarrow>
               (case initialize_embeddings lib s2 of
                  (Inl e, s3) \<Rightarrow> (Inl e, s3)
                | (Inr dimn, s3) \<Rightarrow> (Inr (), s3))))"

definition load_vector_database ::
  "'v library \<Rightarrow> ('v, 'm) files \<Rightarrow> ('v, 'm) store \<Rightarrow> string \<Rightarrow> bool \<times> ('v, 'm) store" where
  "load_vector_database lib fs s path =
     (case load_steps lib fs s path of
        (Inl e, s') \<Rightarrow> (False, s')
      | (Inr u, s') \<Rightarrow> (True, s'))"

definition index_size :: "('v, 'm) store \<Rightarrow> nat" where
  \<comment> \<open>\<open>get_database_stats()['index_size']\<close>\<close>
  "index_size s = (case vector_index s of None \<Rightarrow> 0 | Some idx \<Rightarrow> ntotal idx)"

definition total_chunks :: "('v, 'm) store \<Rightarrow> nat" where
  "total_chunks s = length (vector_texts s)"

definition count_invariant :: "('v, 'm) store \<Rightarrow> bool" where
  "count_invariant s =
     (index_size s = length (vector_texts s) \<and> length (vector_texts s) = length (vector_metadatas s))"

definition index_rows :: "('v, 'm) store \<Rightarrow> 'v list" where
  \<comment> \<open>the rows the index holds; none when there is no index\<close>
  "index_rows s = (case vector_index s of None \<Rightarrow> [] | Some idx \<Rightarrow> vectors idx)"


definition load_fails :: "'v library \<Rightarrow> ('v, 'm) files \<Rightarrow> string \<Rightarrow> bool" where
  \<comment> \<open>a step of the \<open>try\<close> of \<open>load_vector_database\<close> raises: a file that exists is
      not read back, or the embedding model is not initialised\<close>
  "load_fails lib fs path =
     ((case fs (path @ ''.faiss'') of None \<Rightarrow> False | Some b \<Rightarrow> isl (read_index b))
      \<or> (case fs (path @ ''.pkl'') of None \<Rightarrow> False | Some b \<Rightarrow> isl (pickle_load b))
      \<or> model_fault lib \<noteq> None)"

definition score_of :: "'m hit \<Rightarrow> real" where
  "score_of h = fst (snd h)"


section \<open>pdf\_processor.py\<close>

subsection \<open>Regular expressions\<close>

text \<open>
  The patterns of \<open>preprocess_medical_text\<close> are sequences of three kinds of atom:
  one character of a class, a class repeated at least \<open>n\<close> times (greedy or lazy),
  and the word boundary \<open>\b\<close>. \<open>match_here\<close> is the backtracking matcher of \<open>re\<close>
  at one position: the number of characters of the first match in the matcher's
  order of preference (a greedy repetition tries one more character before it tries
  the rest of the pattern, a lazy one the other way round). The second argument is
  the character before the position.
\<close>

datatype atom =
    Ch "char \<Rightarrow> bool"
  | Rep "char \<Rightarrow> bool" nat bool
  | Boundary

definition is_digit :: "char \<Rightarrow> bool" where
  \<comment> \<open>\<open>\d\<close>\<close>
  "is_digit c = (let n = (of_char c :: nat) in 48 \<le> n \<and> n \<le> 57)"

definition is_upper :: "char \<Rightarrow> bool" where
  \<comment> \<open>\<open>[A-Z]\<close>\<close>
  "is_upper c = (let n = (of_char c :: nat) in 65 \<le> n \<and> n \<le> 90)"

definition is_word :: "char \<Rightarrow> bool" where
  \<comment> \<open>\<open>\w\<close>: alphanumeric or the underscore\<close>
  "is_word c = (let n = (of_char c :: nat) in
     (48 \<le> n \<and> n \<le> 57) \<or> (65 \<le> n \<and> n \<le> 90) \<or> n = 95 \<or> (97 \<le> n \<and> n \<le> 122)
     \<or> n = 170 \<or> n = 178 \<or> n = 179 \<or> n = 181 \<or> n = 185 \<or> n = 186
     \<or> (188 \<le> n \<and> n \<le> 190) \<or> (192 \<le> n \<and> n \<le> 214) \<or> (216 \<le> n \<and> n \<le> 246)
     \<or> 248 \<le> n)"

definition newline :: char where
  "newline = CHR 0x0A"

definition not_newline :: "char \<Rightarrow> bool" where
  \<comment> \<open>the dot\<close>
  "not_newline c = (c \<noteq> newline)"

definition word_at :: "char option \<Rightarrow> bool" where
  "word_at x = (case x of None \<Rightarrow> False | Some c \<Rightarrow> is_word c)"

definition first_char :: "string \<Rightarrow> char option" where
  "first_char s = (case s of [] \<Rightarrow> None | c # cs \<Rightarrow> Some c)"

fun match_here :: "atom list \<Rightarrow> char option \<Rightarrow> string \<Rightarrow> nat option" where
  "match_here [] prev s = Some 0"
| "match_here (Ch p # pat) prev [] = None"
| "match_here (Ch p # pat) prev (c # cs) =
     (if p c then map_option Suc (match_here pat (Some c) cs) else None)"
| "match_here (Boundary # pat) prev s =
     (if word_at prev \<noteq> word_at (first_char s) then match_here pat prev s else None)"
| "match_here (Rep p (Suc n) greedy # pat) prev [] = None"
| "match_here (Rep p (Suc n) greedy # pat) prev (c # cs) =
     (if p c then map_option Suc (match_here (Rep p n greedy # pat) (Some c) cs) else None)"
| "match_here (Rep p 0 greedy # pat) prev [] = match_here pat prev []"
| "match_here (Rep p 0 greedy # pat) prev (c # cs) =
     (if greedy then
        (case (if p c then match_here (Rep p 0 greedy # pat) (Some c) cs else None) of
           Some n \<Rightarrow> Some (Suc n)
         | None \<Rightarrow> match_here pat prev (c # cs))
      else
        (case match_here pat prev (c # cs) of
           Some n \<Rightarrow> Some n
         | None \<Rightarrow>
             if p c then map_option Suc (match_here (Rep p 0 greedy # pat) (Some c) cs)
             else None))"

text \<open>
  \<open>re.sub(pattern, repl, text)\<close>: the scan from the left, the matches not
  overlapping; \<open>repl\<close> gives the replacement from the matched text, and \<open>skip\<close>
  characters of the match just replaced are still to be passed over. Every pattern
  of the source matches at least one character; a match of no character is not
  replaced here.
\<close>

fun sub_from :: "atom list \<Rightarrow> (string \<Rightarrow> string) \<Rightarrow> char option \<Rightarrow> nat \<Rightarrow> string \<Rightarrow> string" where
  "sub_from pat repl prev skip [] = []"
| "sub_from pat repl prev skip (c # cs) =
     (if 0 < skip then sub_from pat repl (Some c) (skip - 1) cs
      else (case match_here pat prev (c # cs) of
              Some (Suc n) \<Rightarrow> repl (take (Suc n) (c # cs)) @ sub_from pat repl (Some c) n cs
            | _ \<Rightarrow> c # sub_from pat repl (Some c) 0 cs))"

definition re_sub :: "atom list \<Rightarrow> (string \<Rightarrow> string) \<Rightarrow> string \<Rightarrow> string" where
  "re_sub pat repl s = sub_from pat repl None 0 s"

definition lit :: "string \<Rightarrow> atom list" where
  \<comment> \<open>a literal string\<close>
  "lit s = map (\<lambda>x. Ch (\<lambda>c. c = x)) s"

definition lit_ignorecase :: "string \<Rightarrow> atom list" where
  \<comment> \<open>a literal string under \<open>re.IGNORECASE\<close>\<close>
  "lit_ignorecase s = map (\<lambda>x. Ch (\<lambda>c. lower_char c = lower_char x)) s"

definition plus :: "(char \<Rightarrow> bool) \<Rightarrow> atom" where
  "plus p = Rep p (Suc 0) True"

definition star :: "(char \<Rightarrow> bool) \<Rightarrow> atom" where
  "star p = Rep p 0 True"

definition lazy_star :: "(char \<Rightarrow> bool) \<Rightarrow> atom" where
  "lazy_star p = Rep p 0 False"

subsection \<open>The normalizer\<close>

definition medical_abbrevs :: "(string \<times> string) list" where
  \<comment> \<open>the dictionary, in its order of insertion\<close>
  "medical_abbrevs =
     [(''mg/dl'', ''milligrams per deciliter''),
      (''mmHg'', ''millimeters of mercury''),
      (''CBC'', ''complete blood count''),
      (''BP'', ''blood pressure''),
      (''HR'', ''heart rate''),
      (''RBC'', ''red blood cells''),
      (''WBC'', ''white blood cells''),
      (''ECG'', ''electrocardiogram''),
      (''EKG'', ''electrocardiogram''),
      (''MRI'', ''magnetic resonance imaging''),
      (''CT'', ''computed tomography''),
      (''ICU'', ''intensive care unit''),
      (''ER'', ''emergency room''),
      (''IV'', ''intravenous''),
      (''IM'', ''intramuscular''),
      (''PO'', ''by mouth''),
      (''PRN'', ''as needed''),
      (''BID'', ''twice daily''),
      (''TID'', ''three times daily''),
      (''QID'', ''four times daily'')]"

definition expand :: "string \<Rightarrow> string \<times> string \<Rightarrow> string" where
  \<comment> \<open>one pass of the loop over the dictionary\<close>
  "expand text entry = (case entry of (abbrev, full_form) \<Rightarrow>
     re_sub (Boundary # lit_ignorecase abbrev @ [Boundary]) (\<lambda>m. full_form) text)"

definition allowed :: "char \<Rightarrow> bool" where
  \<comment> \<open>the class that the pattern of special characters negates; 176 is the degree sign\<close>
  "allowed c = (is_word c \<or> py_isspace c \<or> c \<in> set ''.,;:!?-()%+/'' \<or> c = char_of (176 :: nat))"

definition preprocess_medical_text :: "string \<Rightarrow> string" where
  "preprocess_medical_text text0 =
     (let text1 = re_sub (lit ''Page '' @ [plus is_digit, lazy_star not_newline, Ch (\<lambda>c. c = newline)])
                    (\<lambda>m. '''') text0;
          text2 = re_sub (lit ''Chapter '' @ [plus is_digit, lazy_star not_newline, Ch (\<lambda>c. c = newline)])
                    (\<lambda>m. '''') text1;
          text3 = re_sub [Ch (\<lambda>c. c = newline), plus is_digit, Ch (\<lambda>c. c = newline)]
                    (\<lambda>m. [newline]) text2;
          text4 = foldl expand text3 medical_abbrevs;
          text5 = re_sub [plus py_isspace] (\<lambda>m. '' '') text4;
          text6 = re_sub [Ch (\<lambda>c. c = newline), star py_isspace, Ch (\<lambda>c. c = newline)]
                    (\<lambda>m. [newline, newline]) text5;
          text7 = re_sub [Ch (\<lambda>c. \<not> allowed c)] (\<lambda>m. '' '') text6;
          text8 = re_sub [plus py_isspace, Ch (\<lambda>c. c \<in> set '',.!?;:'')] (\<lambda>m. [last m]) text7;
          text9 = re_sub [Ch (\<lambda>c. c \<in> set ''.!?''), star py_isspace, Ch is_upper]
                    (\<lambda>m. [hd m, CHR '' '', last m]) text8
      in strip text9)"

subsection \<open>Shapes of normalized text\<close>

definition is_punct :: "char \<Rightarrow> bool" where
  \<comment> \<open>the class \<open>[,.!?;:]\<close>\<close>
  "is_punct c = (c \<in> set '',.!?;:'')"

definition is_ender :: "char \<Rightarrow> bool" where
  \<comment> \<open>the class \<open>[.!?]\<close>\<close>
  "is_ender c = (c \<in> set ''.!?'')"

abbreviation space_punct :: "atom list" where
  \<comment> \<open>the pattern of whitespace before punctuation\<close>
  "space_punct \<equiv> [plus py_isspace, Ch is_punct]"

abbreviation sentence_capital :: "atom list" where
  \<comment> \<open>the pattern of a sentence end before a capital\<close>
  "sentence_capital \<equiv> [Ch is_ender, star py_isspace, Ch is_upper]"

definition no_space_punct :: "char \<Rightarrow> char \<Rightarrow> bool" where
  \<comment> \<open>two neighbours that are not whitespace before punctuation\<close>
  "no_space_punct a b = (\<not> (py_isspace a \<and> is_punct b))"

definition no_ender_upper :: "char \<Rightarrow> char \<Rightarrow> bool" where
  \<comment> \<open>two neighbours that are not a sentence end directly before a capital\<close>
  "no_ender_upper a b = (\<not> (is_ender a \<and> is_upper b))"

definition no_double_blank :: "char \<Rightarrow> char \<Rightarrow> bool" where
  \<comment> \<open>two neighbours that are not both the space character\<close>
  "no_double_blank a b = (\<not> (a = CHR '' '' \<and> b = CHR '' ''))"

subsection \<open>The chunker\<close>

record metadata =
  chunk_id :: nat
  source :: string
  chunk_length :: nat
  word_count :: nat
  has_medical_terms :: bool

definition medical_keywords :: "string list" where
  "medical_keywords =
     [''symptom'', ''disease'', ''treatment'', ''medicine'', ''diagnosis'',
      ''patient'', ''doctor'', ''hospital'', ''pain'', ''fever'', ''infection'',
      ''medical'', ''health'', ''illness'', ''condition'', ''therapy'',
      ''prescription'', ''medication'', ''surgery'', ''procedure'', ''test'',
      ''blood'', ''heart'', ''lung'', ''brain'', ''liver'', ''kidney'']"

definition detect_medical_terms :: "string \<Rightarrow> bool" where
  "detect_medical_terms text =
     (let text_lower = lower text
      in list_ex (\<lambda>keyword. contains keyword text_lower) medical_keywords)"

fun enhance :: "nat \<Rightarrow> string list \<Rightarrow> metadata chunk list" where
  \<comment> \<open>the loop \<open>for i, chunk in enumerate(chunks)\<close>, from position \<open>i\<close> on\<close>
  "enhance i [] = []"
| "enhance i (c # chunks) =
     (let chunk = strip c
      in if length chunk < 50 then enhance (Suc i) chunks
         else \<lparr>chunk_text = chunk,
               chunk_metadata =
                 \<lparr>chunk_id = i, source = ''medical_encyclopedia'', chunk_length = length chunk,
                  word_count = split_count False chunk,
                  has_medical_terms = detect_medical_terms chunk\<rparr>\<rparr>
              # enhance (Suc i) chunks)"

definition create_smart_chunks :: "(string \<Rightarrow> string list) \<Rightarrow> string \<Rightarrow> metadata chunk list" where
  \<comment> \<open>\<open>split_text\<close> is \<open>RecursiveCharacterTextSplitter(...).split_text\<close>\<close>
  "create_smart_chunks split_text text = enhance 0 (split_text text)"

definition chunk_ids :: "metadata chunk list \<Rightarrow> nat list" where
  "chunk_ids passages = map (\<lambda>p. chunk_id (chunk_metadata p)) passages"


section \<open>Example inputs\<close>

definition hedging_world :: "unit world" where
  \<comment> \<open>an empty knowledge base and a service that hedges on every call\<close>
  "hedging_world =
     \<lparr>search = (\<lambda>query k. Inr []),
      chat_completion = (\<lambda>n prompt. Inr ''I don't know''),
      score_2f = (\<lambda>x. ''0.00'')\<rparr>"


definition unit_library :: "nat library" where
  \<comment> \<open>a working model of dimension 2 whose vectors are the lengths of the texts; the
      index reports two stored rows at the values 4/5 and 2, the nearer row first, as
      an index of metric L2 does with squared distances\<close>
  "unit_library =
     \<lparr>model_fault = None, model_dim = 2, embed = length, encode_fault = (\<lambda>batch. None),
      renorm = (\<lambda>v. v),
      index_search = (\<lambda>idx q k. take k [(4 / 5, 0), (2, 1)] @ replicate (k - 2) (2, - 1))\<rparr>"

definition faulty_library :: "nat library" where
  \<comment> \<open>the same model, with an encoder that raises on every batch\<close>
  "faulty_library = unit_library\<lparr>encode_fault := (\<lambda>batch. Some EncodeError)\<rparr>"

definition fresh_store :: "(nat, string) store" where
  \<comment> \<open>the module as imported\<close>
  "fresh_store =
     \<lparr>vector_index = None, vector_texts = [], vector_metadatas = [],
      embedding_model = False, dimension = None\<rparr>"

definition two_chunks :: "string chunk list" where
  "two_chunks =
     [\<lparr>chunk_text = ''fever'', chunk_metadata = ''a''\<rparr>,
      \<lparr>chunk_text = ''cough'', chunk_metadata = ''b''\<rparr>]"

definition two_store :: "(nat, string) store" where
  \<comment> \<open>the store after \<open>two_chunks\<close> were added to the fresh one\<close>
  "two_store = snd (add_to_vector_database unit_library fresh_store two_chunks)"

definition no_faults :: disk_faults where
  "no_faults = \<lparr>makedirs_fault = (\<lambda>p. None), write_fault = (\<lambda>p. None)\<rparr>"

definition no_files :: "(nat, string) files" where
  "no_files = (\<lambda>p. None)"

definition corrupt_side_file :: "(nat, string) files" where
  "corrupt_side_file = no_files(''data/medical_vector_store.pkl'' \<mapsto> Corrupt)"

definition heading_text :: string where
  \<comment> \<open>a short heading, a paragraph break, and 850 characters without a separator\<close>
  "heading_text = ''Hi.\<newline>\<newline>'' @ replicate 850 CHR ''a''"

definition heading_splitter :: "string \<Rightarrow> string list" where
  \<comment> \<open>what the splitter (chunk size 800, overlap 150) returns on \<open>heading_text\<close>:
      the heading, the first 799 characters of the paragraph, and its last 201\<close>
  "heading_splitter text = [''Hi.'', replicate 799 CHR ''a'', replicate 201 CHR ''a'']"

definition paragraph_splitter :: "string \<Rightarrow> string list" where
  \<comment> \<open>a splitter output of two chunks of 60 characters\<close>
  "paragraph_splitter text = [replicate 60 CHR ''a'', replicate 60 CHR ''b'']"

definition stale_index_file :: "(nat, string) files" where
  \<comment> \<open>the index file that an earlier save of \<open>two_store\<close> left at the path\<close>
  "stale_index_file =
     no_files(''data/medical_vector_store.faiss'' \<mapsto> FaissBlob ((new_index 2)\<lparr>vectors := [5, 5]\<rparr>))"


section \<open>Verification\<close>

subsection \<open>The critic loop\<close>


lemma critic_loop_calls:
  "\<exists>n. snd (critic_loop w q k r f cs) = cs @ [k ..< k + n] \<and> n \<le> 13 - k"
proof (induction w q k r f cs rule: critic_loop.induct)
  case (1 w query top_k retries final_response calls)
  show ?case
  proof (cases "top_k \<le> max_top_k")
    case False
    then have "snd (critic_loop w query top_k retries final_response calls) = calls @ [top_k ..< top_k + 0]"
      by (subst critic_loop.simps) simp
    then show ?thesis by blast
  next
    case le: True
    show ?thesis
    proof (cases "retrieve_relevant_context w query top_k")
      case (Inl e)
      with le have "snd (critic_loop w query top_k retries final_response calls) = calls @ [top_k ..< top_k + 0]"
        by (subst critic_loop.simps) simp
      then show ?thesis by blast
    next
      case ctx: (Inr cx)
      show ?thesis
      proof (cases "chat_completion w retries (prompt_format create_medical_prompt_template cx query)")
        case (Inl e)
        with le ctx have "snd (critic_loop w query top_k retries final_response calls) = calls @ [top_k ..< top_k + 1]"
          by (subst critic_loop.simps) simp
        moreover from le have "1 \<le> 13 - top_k" by (simp add: max_top_k_def)
        ultimately show ?thesis by blast
      next
        case resp: (Inr response)
        show ?thesis
        proof (cases "is_response_complete (format_medical_response response)")
          case True
          with le ctx resp have "snd (critic_loop w query top_k retries final_response calls) = calls @ [top_k ..< top_k + 1]"
            by (subst critic_loop.simps) simp
          moreover from le have "1 \<le> 13 - top_k" by (simp add: max_top_k_def)
          ultimately show ?thesis by blast
        next
          case False
          from "1.IH"[OF le ctx resp refl False]
          obtain n where n: "snd (critic_loop w query (top_k + 1) (retries + 1) (format_medical_response response) (calls @ [top_k]))
              = (calls @ [top_k]) @ [top_k + 1 ..< top_k + 1 + n]" "n \<le> 13 - (top_k + 1)"
            by blast
          from le ctx resp False
          have "critic_loop w query top_k retries final_response calls
              = critic_loop w query (top_k + 1) (retries + 1) (format_medical_response response) (calls @ [top_k])"
            by (subst critic_loop.simps) (simp add: Let_def)
          with n have "snd (critic_loop w query top_k retries final_response calls) = calls @ [top_k ..< top_k + Suc n]"
            by (simp add: upt_conv_Cons)
          moreover from n le have "Suc n \<le> 13 - top_k" by (simp add: max_top_k_def)
          ultimately show ?thesis by blast
        qed
      qed
    qed
  qed
qed

lemma critic_loop_step:
  assumes "top_k \<le> 12" "draft w q top_k r = Inr c" "\<not> is_response_complete c"
  shows "critic_loop w q top_k r f cs = critic_loop w q (top_k + 1) (r + 1) c (cs @ [top_k])"
  using assms
  by (subst critic_loop.simps) (auto simp: draft_def max_top_k_def Let_def split: sum.splits)


lemma critic_loop_accept:
  assumes "top_k \<le> 12" "draft w q top_k r = Inr c" "is_response_complete c"
  shows "critic_loop w q top_k r f cs = (Inr c, cs @ [top_k])"
  using assms
  by (subst critic_loop.simps) (auto simp: draft_def max_top_k_def Let_def split: sum.splits)

lemma critic_loop_exit:
  "12 < top_k \<Longrightarrow> critic_loop w q top_k r f cs = (Inr f, cs)"
  by (subst critic_loop.simps) (simp add: max_top_k_def)


lemma critic_loop_all_rejected:
  "top_k \<le> 12 \<Longrightarrow>
   (\<forall>j. j \<le> 12 - top_k \<longrightarrow>
        (\<exists>c. draft w q (top_k + j) (r + j) = Inr c \<and> \<not> is_response_complete c)) \<Longrightarrow>
   critic_loop w q top_k r f cs = (draft w q 12 (r + (12 - top_k)), cs @ [top_k ..< 13])"
proof (induction "12 - top_k" arbitrary: top_k r f cs)
  case 0
  then have k: "top_k = 12" by simp
  from "0.prems"(2)[rule_format, of 0] obtain c
    where c: "draft w q top_k r = Inr c" "\<not> is_response_complete c" by auto
  from critic_loop_step[OF "0.prems"(1) c]
  have "critic_loop w q top_k r f cs = critic_loop w q 13 (r + 1) c (cs @ [12])"
    by (simp add: k)
  also have "\<dots> = (Inr c, cs @ [12])" by (rule critic_loop_exit) simp
  finally show ?case using c k by simp
next
  case (Suc n)
  then have k: "top_k \<le> 11" by simp
  from Suc.prems(2)[rule_format, of 0] obtain c
    where c: "draft w q top_k r = Inr c" "\<not> is_response_complete c" by auto
  have rest: "\<forall>j. j \<le> 12 - (top_k + 1) \<longrightarrow>
      (\<exists>c. draft w q (top_k + 1 + j) (r + 1 + j) = Inr c \<and> \<not> is_response_complete c)"
  proof (intro allI impI)
    fix j assume "j \<le> 12 - (top_k + 1)"
    then have "Suc j \<le> 12 - top_k" using k by simp
    from Suc.prems(2)[rule_format, OF this] show
      "\<exists>c. draft w q (top_k + 1 + j) (r + 1 + j) = Inr c \<and> \<not> is_response_complete c" by simp
  qed
  have n: "n = 12 - (top_k + 1)" using Suc.hyps(2) by simp
  from k have k1: "top_k + 1 \<le> 12" by simp
  from critic_loop_step[OF Suc.prems(1) c]
  have "critic_loop w q top_k r f cs = critic_loop w q (top_k + 1) (r + 1) c (cs @ [top_k])" .
  also have "\<dots> = (draft w q 12 (r + 1 + (12 - (top_k + 1))), (cs @ [top_k]) @ [top_k + 1 ..< 13])"
    by (rule Suc.hyps(1)[OF n k1 rest])
  finally have "critic_loop w q top_k r f cs =
      (draft w q 12 (r + 1 + (12 - (top_k + 1))), (cs @ [top_k]) @ [top_k + 1 ..< 13])" .
  moreover have "r + 1 + (12 - (top_k + 1)) = r + (12 - top_k)" using k by simp
  moreover have "(cs @ [top_k]) @ [top_k + 1 ..< 13] = cs @ [top_k ..< 13]"
    using k by (simp add: upt_conv_Cons)
  ultimately show ?case by (simp only:)
qed


lemma rejectedD:
  "rejected w q i \<Longrightarrow> \<exists>c. draft w q (3 + i) i = Inr c \<and> \<not> is_response_complete c"
  by (cases "draft w q (3 + i) i") (simp_all add: rejected_def)

text \<open>
  Claim C3. One request calls the completion service at most ten times, at the
  breadths 3, 4, 5, ... in turn; when all ten candidates are rejected the calls are
  those at 3 to 12 and the answer is the candidate drafted at breadth 12: the loop
  exits without an error.
\<close>

theorem critic_loop_bound:
  "length (completion_calls w q) \<le> 10 \<and>
   completion_calls w q = [3 ..< 3 + length (completion_calls w q)] \<and>
   ((\<forall>i<10. rejected w q i) \<longrightarrow>
      completion_calls w q = [3 ..< 13] \<and> Inr (generate_medical_response w q) = draft w q 12 9)"
proof -
  from critic_loop_calls[of w q 3 0 "[]" "[]"] obtain n
    where n: "completion_calls w q = [3 ..< 3 + n]" "n \<le> 10"
    by (auto simp: completion_calls_def)
  have "(\<forall>i<10. rejected w q i) \<longrightarrow>
      completion_calls w q = [3 ..< 13] \<and> Inr (generate_medical_response w q) = draft w q 12 9"
  proof
    assume rej: "\<forall>i<10. rejected w q i"
    have "\<forall>j. j \<le> 12 - 3 \<longrightarrow> (\<exists>c. draft w q (3 + j) (0 + j) = Inr c \<and> \<not> is_response_complete c)"
    proof (intro allI impI)
      fix j :: nat assume "j \<le> 12 - 3"
      then have "j < 10" by simp
      with rej have "rejected w q j" by blast
      then show "\<exists>c. draft w q (3 + j) (0 + j) = Inr c \<and> \<not> is_response_complete c"
        using rejectedD by simp
    qed
    from critic_loop_all_rejected[OF _ this, of "[]" "[]"]
    have loop: "critic_loop w q 3 0 [] [] = (draft w q 12 9, [3 ..< 13])" by simp
    from rej have "rejected w q 9" by simp
    then obtain c where "draft w q 12 9 = Inr c"
      using rejectedD[of w q 9] by auto
    with loop show "completion_calls w q = [3 ..< 13] \<and>
        Inr (generate_medical_response w q) = draft w q 12 9"
      by (simp add: completion_calls_def generate_medical_response_def)
  qed
  with n show ?thesis by simp
qed


lemma hedge_rejected: "\<not> is_response_complete (format_medical_response ''I don't know'')"
  by code_simp

lemma hedging_world_rejected: "rejected hedging_world q i"
  using hedge_rejected
  by (simp add: rejected_def draft_def retrieve_relevant_context_def hedging_world_def)

theorem critic_loop_bound_witness:
  "list_all (rejected hedging_world ''fever'') [0 ..< 10] \<and>
   completion_calls hedging_world ''fever'' = [3 ..< 13] \<and>
   Inr (generate_medical_response hedging_world ''fever'') = draft hedging_world ''fever'' 12 9"
  using critic_loop_bound[of hedging_world "''fever''"] hedging_world_rejected
  by (simp add: list_all_iff)




subsection \<open>The domain pre-filter\<close>

text \<open>
  The claim C9 as stated, with the keyword absent from the list, is false: the list
  of \<open>validate_medical_query\<close> holds \<open>hypertension\<close>.
\<close>

theorem domain_filter_keyword_counterexample:
  "\<not> (validate_medical_query ''What is hypertension?'' \<and>
      ''hypertension'' \<notin> set medical_indicators \<and>
      \<not> validate_medical_query ''What's the weather today?'')"
  by (simp add: medical_indicators_def)

lemma hypertension_query_in_domain: "validate_medical_query ''What is hypertension?''" by code_simp
lemma weather_query_out_of_domain: "\<not> validate_medical_query ''What's the weather today?''" by code_simp
lemma hypertension_query_what_is: "contains ''what is'' (lower ''What is hypertension?'')" by code_simp
lemma hypertension_query_keyword: "contains ''hypertension'' (lower ''What is hypertension?'')" by code_simp

text \<open>
  Claim C9, amended. The first query is in the domain, and both \<open>hypertension\<close>
  and \<open>what is\<close> are keywords of the list that occur in it; the weather query is
  out of the domain.
\<close>

theorem domain_filter_scenario:
  "validate_medical_query ''What is hypertension?'' \<and>
   ''hypertension'' \<in> set medical_indicators \<and>
   ''what is'' \<in> set medical_indicators \<and>
   contains ''hypertension'' (lower ''What is hypertension?'') \<and>
   contains ''what is'' (lower ''What is hypertension?'') \<and>
   \<not> validate_medical_query ''What's the weather today?''"
  using hypertension_query_in_domain weather_query_out_of_domain
    hypertension_query_what_is hypertension_query_keyword
  by (simp add: medical_indicators_def)

subsection \<open>Adding to the store\<close>


lemma encode_batches_rows:
  "encode_batches lib texts = Inr rows \<Longrightarrow> rows = map (embed lib) texts"
proof (induction lib texts arbitrary: rows rule: encode_batches.induct)
  case (1 lib texts)
  show ?case
  proof (cases "texts = []")
    case True
    with "1.prems" show ?thesis by (simp add: encode_batches.simps)
  next
    case False
    from "1.prems" False obtain em rest where
      em: "encode lib (take 32 texts) = Inr em" and
      rest: "encode_batches lib (drop 32 texts) = Inr rest" and
      rows: "rows = em @ rest"
      by (subst (asm) encode_batches.simps) (auto split: sum.splits)
    from em have "em = map (embed lib) (take 32 texts)"
      by (auto simp: encode_def split: option.splits)
    moreover from "1.IH"[OF False em rest] have "rest = map (embed lib) (drop 32 texts)" .
    ultimately have "rows = map (embed lib) (take 32 texts @ drop 32 texts)"
      using rows by (simp only: map_append)
    then show ?thesis by (simp only: append_take_drop_id)
  qed
qed

lemma initialize_embeddings_corpus:
  "initialize_embeddings lib s = (r, s') \<Longrightarrow>
   vector_index s' = vector_index s \<and> vector_texts s' = vector_texts s \<and>
   vector_metadatas s' = vector_metadatas s"
  by (auto simp: initialize_embeddings_def split: option.splits)

lemma generate_embeddings_corpus:
  "generate_embeddings lib s texts = (r, s') \<Longrightarrow>
   vector_index s' = vector_index s \<and> vector_texts s' = vector_texts s \<and>
   vector_metadatas s' = vector_metadatas s"
  by (auto simp: generate_embeddings_def split: if_splits prod.splits sum.splits
      dest: initialize_embeddings_corpus)

lemma generate_embeddings_rows:
  "generate_embeddings lib s texts = (Inr rows, s') \<Longrightarrow> length rows = length texts"
  by (auto simp: generate_embeddings_def split: if_splits prod.splits sum.splits
      dest: encode_batches_rows)

lemma create_vector_index_raise:
  "create_vector_index lib s = (Inl e, s') \<Longrightarrow>
   vector_index s' = vector_index s \<and> vector_texts s' = vector_texts s \<and>
   vector_metadatas s' = vector_metadatas s"
  by (auto simp: create_vector_index_def split: option.splits prod.splits sum.splits
      dest: initialize_embeddings_corpus)

lemma create_vector_index_return:
  "create_vector_index lib s = (Inr u, s') \<Longrightarrow>
   (\<exists>idx. vector_index s' = Some idx \<and> vectors idx = []) \<and>
   vector_texts s' = vector_texts s \<and> vector_metadatas s' = vector_metadatas s"
  by (auto simp: create_vector_index_def new_index_def IndexHNSWFlat_def
      split: option.splits prod.splits sum.splits dest: initialize_embeddings_corpus)

lemma index_ready:
  assumes "(if vector_index s = None then create_vector_index lib s else (Inr (), s)) = (r, s1)"
  shows "index_rows s1 = index_rows s \<and> vector_texts s1 = vector_texts s \<and>
         vector_metadatas s1 = vector_metadatas s \<and>
         (\<forall>u. r = Inr u \<longrightarrow> vector_index s1 \<noteq> None)"
proof (cases "vector_index s = None")
  case False
  with assms show ?thesis by auto
next
  case True
  with assms have c: "create_vector_index lib s = (r, s1)" by simp
  show ?thesis
  proof (cases r)
    case (Inl e)
    with c create_vector_index_raise[of lib s e s1] show ?thesis
      by (simp add: index_rows_def)
  next
    case (Inr u)
    with c create_vector_index_return[of lib s u s1] True show ?thesis
      by (auto simp: index_rows_def)
  qed
qed

lemma index_rows_update:
  "index_rows (s\<lparr>vector_index := Some i, vector_texts := t, vector_metadatas := m\<rparr>) = vectors i"
  by (simp add: index_rows_def)

lemma index_size_rows: "index_size s = length (index_rows s)"
  by (simp add: index_size_def index_rows_def ntotal_def split: option.splits)

text \<open>
  Claim C1. When \<open>add_to_vector_database\<close> raises, at whatever step, the index
  holds the rows it held (so its count is the same) and the stored texts and metadata
  are the ones before the call; when it returns, the count has grown by the number of
  chunks given, the texts and metadata of the chunks have been appended, and the
  equality of the three counts is preserved.
\<close>

theorem add_atomic:
  "case add_to_vector_database lib s chunks of
     (Inl e, s') \<Rightarrow>
       index_size s' = index_size s \<and> index_rows s' = index_rows s \<and>
       vector_texts s' = vector_texts s \<and> vector_metadatas s' = vector_metadatas s
   | (Inr u, s') \<Rightarrow>
       index_size s' = index_size s + length chunks \<and>
       vector_texts s' = vector_texts s @ map chunk_text chunks \<and>
       vector_metadatas s' = vector_metadatas s @ map chunk_metadata chunks \<and>
       (count_invariant s \<longrightarrow> count_invariant s')"
proof -
  obtain r1 s1 where a1:
    "(if vector_index s = None then create_vector_index lib s else (Inr (), s)) = (r1, s1)"
    by (cases "if vector_index s = None then create_vector_index lib s else (Inr (), s)")
  note k1 = index_ready[OF a1]
  show ?thesis
  proof (cases r1)
    case (Inl e)
    with a1 k1 show ?thesis
      by (simp add: add_to_vector_database_def index_size_rows)
  next
    case r1: (Inr u)
    obtain r2 s2 where a2: "generate_embeddings lib s1 (map chunk_text chunks) = (r2, s2)"
      by (cases "generate_embeddings lib s1 (map chunk_text chunks)")
    note k2 = generate_embeddings_corpus[OF a2]
    from k1 k2 have same: "index_rows s2 = index_rows s" "vector_texts s2 = vector_texts s"
      "vector_metadatas s2 = vector_metadatas s"
      by (simp_all add: index_rows_def)
    show ?thesis
    proof (cases r2)
      case (Inl e)
      with a1 r1 a2 same show ?thesis
        by (simp add: add_to_vector_database_def index_size_rows Let_def)
    next
      case r2: (Inr embeddings)
      from a2 r2 have len: "length embeddings = length chunks"
        using generate_embeddings_rows[of lib s1 "map chunk_text chunks" embeddings s2] by simp
      show ?thesis
      proof (cases "normalize_L2 lib embeddings")
        case (Inl e)
        with a1 r1 a2 r2 same show ?thesis
          by (simp add: add_to_vector_database_def index_size_rows Let_def)
      next
        case nz: (Inr normalized)
        then have lenn: "length normalized = length chunks"
          using len by (auto simp: normalize_L2_def split: if_splits)
        from k1 r1 k2 obtain idx where idx: "vector_index s2 = Some idx" by auto
        show ?thesis
        proof (cases "index_add lib idx normalized")
          case (Inl e)
          with a1 r1 a2 r2 nz idx same show ?thesis
            by (simp add: add_to_vector_database_def index_size_rows Let_def)
        next
          case (Inr idx')
          then have rows': "vectors idx' = vectors idx @ normalized"
            by (auto simp: index_add_def split: if_splits)
          from idx same have rows: "vectors idx = index_rows s" by (simp add: index_rows_def)
          from a1 r1 a2 r2 nz idx Inr have res:
            "add_to_vector_database lib s chunks =
               (Inr (), s2\<lparr>vector_index := Some idx',
                  vector_texts := vector_texts s2 @ map chunk_text chunks,
                  vector_metadatas := vector_metadatas s2 @ map chunk_metadata chunks\<rparr>)"
            by (simp add: add_to_vector_database_def Let_def)
          show ?thesis
            unfolding res using rows rows' lenn same
            by (simp add: index_size_rows index_rows_update count_invariant_def)
        qed
      qed
    qed
  qed
qed

lemma two_store_eval:
  "add_to_vector_database unit_library fresh_store two_chunks =
     (Inr (),
      \<lparr>vector_index = Some ((new_index 2)\<lparr>vectors := [5, 5]\<rparr>),
       vector_texts = [''fever'', ''cough''], vector_metadatas = [''a'', ''b''],
       embedding_model = True, dimension = Some 2\<rparr>)"
  by (simp add: add_to_vector_database_def unit_library_def fresh_store_def two_chunks_def
      create_vector_index_def initialize_embeddings_def generate_embeddings_def
      encode_batches.simps encode_def normalize_L2_def index_add_def new_index_def
      IndexHNSWFlat_def Let_def)

lemma two_store_value:
  "two_store =
     \<lparr>vector_index = Some ((new_index 2)\<lparr>vectors := [5, 5]\<rparr>),
      vector_texts = [''fever'', ''cough''], vector_metadatas = [''a'', ''b''],
      embedding_model = True, dimension = Some 2\<rparr>"
  by (simp add: two_store_def two_store_eval)

lemma faulty_eval:
  "fst (add_to_vector_database faulty_library two_store two_chunks) = Inl EncodeError"
  by (simp add: two_store_value add_to_vector_database_def faulty_library_def
      unit_library_def generate_embeddings_def encode_batches.simps encode_def two_chunks_def
      Let_def)

theorem add_atomic_witness:
  "count_invariant fresh_store \<and>
   fst (add_to_vector_database unit_library fresh_store two_chunks) = Inr () \<and>
   index_size two_store = 2 \<and> count_invariant two_store \<and>
   fst (add_to_vector_database faulty_library two_store two_chunks) = Inl EncodeError \<and>
   index_size (snd (add_to_vector_database faulty_library two_store two_chunks)) = 2 \<and>
   vector_texts (snd (add_to_vector_database faulty_library two_store two_chunks)) =
     [''fever'', ''cough'']"
proof -
  have inv: "count_invariant fresh_store"
    by (simp add: count_invariant_def fresh_store_def index_size_def)
  have ok: "fst (add_to_vector_database unit_library fresh_store two_chunks) = Inr ()"
    by (simp add: two_store_eval)
  from add_atomic[where lib = unit_library and s = fresh_store and chunks = two_chunks] inv ok
  have two: "index_size two_store = 2" "count_invariant two_store"
    "vector_texts two_store = [''fever'', ''cough'']"
    by (auto simp: two_store_def two_chunks_def fresh_store_def index_size_def
        split: prod.splits sum.splits)
  from add_atomic[where lib = faulty_library and s = two_store and chunks = two_chunks] faulty_eval two
  have "index_size (snd (add_to_vector_database faulty_library two_store two_chunks)) = 2"
    "vector_texts (snd (add_to_vector_database faulty_library two_store two_chunks)) =
       [''fever'', ''cough'']"
    by (auto split: prod.splits sum.splits)
  with inv ok two faulty_eval show ?thesis by simp
qed

subsection \<open>Searching the store\<close>


lemma collect_scores:
  "collect texts metadatas hits = Inr results \<Longrightarrow>
   map score_of results = map fst (filter (\<lambda>(score, idx). idx \<noteq> - 1 \<and> score > 0.3) hits)"
proof (induction hits arbitrary: results)
  case Nil
  then show ?case by simp
next
  case (Cons h hits)
  obtain score idx where h: "h = (score, idx)" by (cases h)
  show ?case
  proof (cases "idx \<noteq> - 1 \<and> score > 0.3")
    case False
    with Cons h show ?thesis by auto
  next
    case True
    with Cons.prems h obtain t m rest where
      "collect texts metadatas hits = Inr rest" "results = (t, score, m) # rest"
      by (auto split: sum.splits)
    with Cons.IH[of rest] True h show ?thesis by (simp add: score_of_def)
  qed
qed

lemma similarity_search_hits:
  assumes "fst (similarity_search lib s query k) = Inr results"
  shows "results = [] \<or>
    (\<exists>idx q. vector_index s = Some idx \<and> 0 < k \<and>
       map score_of results =
         map fst (filter (\<lambda>(score, i). i \<noteq> - 1 \<and> score > 0.3) (index_search lib idx q k)))"
proof (cases "vector_index s")
  case None
  with assms show ?thesis by (simp add: similarity_search_def)
next
  case (Some idx)
  show ?thesis
  proof (cases "ntotal idx = 0")
    case True
    with assms Some show ?thesis by (simp add: similarity_search_def)
  next
    case False
    obtain r1 s1 where i: "(if embedding_model s then (Inr (model_dim lib), s)
        else initialize_embeddings lib s) = (r1, s1)"
      by (cases "if embedding_model s then (Inr (model_dim lib), s)
        else initialize_embeddings lib s")
    from assms Some False i obtain dm qe nz hits where
      "faiss_search lib idx (hd nz) k = Inr hits"
      "collect (vector_texts s1) (vector_metadatas s1) hits = Inr results"
      by (simp add: similarity_search_def split: sum.splits)
    then show ?thesis using Some
      by (auto simp: faiss_search_def split: if_splits dest!: collect_scores)
  qed
qed

lemma filter_floor:
  "list_all (\<lambda>x. x > 0.3) (map fst (filter (\<lambda>(score :: real, i :: int). i \<noteq> - 1 \<and> score > 0.3) hits))"
  by (induction hits) auto

lemma similarity_search_filters:
  assumes "fst (similarity_search lib s query k) = Inr results"
  shows "list_all (\<lambda>h. score_of h > 0.3) results"
proof -
  from similarity_search_hits[OF assms] show ?thesis
  proof
    assume "results = []" then show ?thesis by simp
  next
    assume "\<exists>idx q. vector_index s = Some idx \<and> 0 < k \<and>
       map score_of results =
         map fst (filter (\<lambda>(score, i). i \<noteq> - 1 \<and> score > 0.3) (index_search lib idx q k))"
    then obtain idx q where eq:
      "map score_of results =
         map fst (filter (\<lambda>(score, i). i \<noteq> - 1 \<and> score > 0.3) (index_search lib idx q k))"
      by blast
    have "list_all (\<lambda>x. x > 0.3) (map score_of results)"
      unfolding eq by (rule filter_floor)
    then show ?thesis by (simp add: list_all_iff)
  qed
qed

lemma similarity_search_length:
  assumes "fst (similarity_search lib s query k) = Inr results"
    and "\<And>idx q. length (index_search lib idx q k) = k"
  shows "length results \<le> k"
proof -
  from similarity_search_hits[OF assms(1)] show ?thesis
  proof
    assume "results = []" then show ?thesis by simp
  next
    assume "\<exists>idx q. vector_index s = Some idx \<and> 0 < k \<and>
       map score_of results =
         map fst (filter (\<lambda>(score, i). i \<noteq> - 1 \<and> score > 0.3) (index_search lib idx q k))"
    then obtain idx q where
      "map score_of results =
         map fst (filter (\<lambda>(score, i). i \<noteq> - 1 \<and> score > 0.3) (index_search lib idx q k))"
      by blast
    then have "length results =
        length (filter (\<lambda>(score, i). i \<noteq> - 1 \<and> score > 0.3) (index_search lib idx q k))"
      by (metis length_map)
    also have "\<dots> \<le> length (index_search lib idx q k)" by (rule length_filter_le)
    finally show ?thesis using assms(2) by simp
  qed
qed

lemma similarity_search_empty:
  "vector_index s = None \<or> index_size s = 0 \<Longrightarrow> similarity_search lib s query k = (Inr [], s)"
  by (auto simp: similarity_search_def index_size_def split: option.splits)



lemma similarity_search_keeps_order:
  assumes "fst (similarity_search lib s query k) = Inr results"
    and "\<And>idx q. sorted_wrt R (map fst (index_search lib idx q k))"
  shows "sorted_wrt R (map score_of results)"
proof -
  from similarity_search_hits[OF assms(1)] show ?thesis
  proof
    assume "results = []" then show ?thesis by simp
  next
    assume "\<exists>idx q. vector_index s = Some idx \<and> 0 < k \<and>
       map score_of results =
         map fst (filter (\<lambda>(score, i). i \<noteq> - 1 \<and> score > 0.3) (index_search lib idx q k))"
    then obtain idx q where eq:
      "map score_of results =
         map fst (filter (\<lambda>(score, i). i \<noteq> - 1 \<and> score > 0.3) (index_search lib idx q k))"
      by blast
    from assms(2)[of idx q]
    have "sorted_wrt (\<lambda>a b. R (fst a) (fst b)) (index_search lib idx q k)"
      by (simp add: sorted_wrt_map)
    then have "sorted_wrt (\<lambda>a b. R (fst a) (fst b))
        (filter (\<lambda>(score, i). i \<noteq> - 1 \<and> score > 0.3) (index_search lib idx q k))"
      by (rule sorted_wrt_filter)
    then show ?thesis unfolding eq by (simp add: sorted_wrt_map)
  qed
qed


text \<open>
  Claim C2 at a store of two passages. The index, built with the metric L2, reports
  the squared distances 4/5 and 2 with the nearer passage first;
  \<open>similarity_search\<close> returns both in that order, so the scores of the result
  increase: the result is not sorted by non-increasing score. The lemmas above give
  what the function does ensure: every score it returns is above 0.3, no result
  comes from a position \<open>-1\<close>, there are at most as many results as the index
  reported, in the index's order, and none without an index or with an empty one.
\<close>

theorem similarity_search_ascending:
  "fst (similarity_search unit_library two_store ''fever'' 2) =
     Inr [(''fever'', 4 / 5, ''a''), (''cough'', 2, ''b'')] \<and>
   \<not> sorted_wrt (\<lambda>a b. a \<ge> b)
       (map score_of [(''fever'', 4 / 5 :: real, ''a''), (''cough'', 2, ''b'')])"
  by (simp add: two_store_value similarity_search_def unit_library_def ntotal_def
      new_index_def IndexHNSWFlat_def encode_def normalize_L2_def faiss_search_def
      py_get_def score_of_def)

subsection \<open>Loading the store\<close>


lemma load_steps_result:
  "isl (fst (load_steps lib fs s path)) = load_fails lib fs path"
proof (cases "fs (path @ ''.faiss'')")
  case None
  show ?thesis
  proof (cases "fs (path @ ''.pkl'')")
    case n2: None
    with None show ?thesis
      by (simp add: load_steps_def load_fails_def initialize_embeddings_def split: option.splits)
  next
    case (Some b)
    with None show ?thesis
      by (cases "pickle_load b")
        (auto simp: load_steps_def load_fails_def initialize_embeddings_def split: option.splits)
  qed
next
  case f: (Some a)
  show ?thesis
  proof (cases "read_index a")
    case (Inl e)
    with f show ?thesis by (simp add: load_steps_def load_fails_def)
  next
    case (Inr idx)
    show ?thesis
    proof (cases "fs (path @ ''.pkl'')")
      case None
      with f Inr show ?thesis
        by (simp add: load_steps_def load_fails_def initialize_embeddings_def split: option.splits)
    next
      case (Some b)
      with f Inr show ?thesis
        by (cases "pickle_load b")
          (auto simp: load_steps_def load_fails_def initialize_embeddings_def split: option.splits)
    qed
  qed
qed

text \<open>
  Claim C6, amended. \<open>load_vector_database\<close> returns a truth value in every case:
  it has no error result. It returns false exactly when a step of its \<open>try\<close>
  raises, which is when a file that exists is not read back or the embedding model
  is not initialised. A file that is missing is skipped and is no failure.
\<close>

theorem load_result:
  "fst (load_vector_database lib fs s path) = (\<not> load_fails lib fs path)"
proof -
  have "fst (load_vector_database lib fs s path) = (\<not> isl (fst (load_steps lib fs s path)))"
    by (cases "load_steps lib fs s path") (auto simp: load_vector_database_def split: sum.splits)
  then show ?thesis by (simp add: load_steps_result)
qed

text \<open>
  The claim C6 as stated fails where both files are missing: the load returns true.
\<close>

theorem load_missing_files_counterexample:
  "fst (load_vector_database unit_library no_files fresh_store ''data/medical_vector_store'') = True"
  by (simp add: load_vector_database_def load_steps_def no_files_def unit_library_def
      initialize_embeddings_def)

theorem load_result_witness:
  "fst (load_vector_database unit_library corrupt_side_file fresh_store
          ''data/medical_vector_store'') = False \<and>
   load_fails unit_library corrupt_side_file ''data/medical_vector_store'' \<and>
   \<not> load_fails unit_library no_files ''data/medical_vector_store''"
proof -
  have a: "load_fails unit_library corrupt_side_file ''data/medical_vector_store''"
    by (simp add: load_fails_def corrupt_side_file_def no_files_def pickle_load_def)
  have b: "\<not> load_fails unit_library no_files ''data/medical_vector_store''"
    by (simp add: load_fails_def no_files_def unit_library_def)
  from a b load_result[of unit_library corrupt_side_file fresh_store "''data/medical_vector_store''"]
  show ?thesis by simp
qed

subsection \<open>Saving the store\<close>


lemma suffix_differs: "path @ ''.faiss'' \<noteq> path @ ''.pkl''"
  by simp

text \<open>
  Claim C10, amended. When the directory can be made and the two files can be
  written, \<open>save_vector_database\<close> returns; and whenever it returns, the side file
  holds the texts, the metadata and the dimension of the store, whatever the store
  holds, while the index file is written only for an index that exists and holds a
  vector: otherwise the path of the index file is left as it was, so that the
  snapshot of an empty corpus has no index file only where none was before.
\<close>

theorem save_writes:
  "(makedirs_fault io (dirname path) = None \<and> write_fault io (path @ ''.faiss'') = None \<and>
    write_fault io (path @ ''.pkl'') = None
      \<longrightarrow> fst (save_vector_database io s fs path) = Inr ()) \<and>
   (fst (save_vector_database io s fs path) = Inr ()
      \<longrightarrow> snd (save_vector_database io s fs path) (path @ ''.pkl'') =
            Some (PickleBlob (vector_texts s) (vector_metadatas s) (dimension s)) \<and>
          snd (save_vector_database io s fs path) (path @ ''.faiss'') =
            (case vector_index s of
               None \<Rightarrow> fs (path @ ''.faiss'')
             | Some idx \<Rightarrow> if ntotal idx > 0 then Some (FaissBlob idx)
                           else fs (path @ ''.faiss'')))"
proof (cases "makedirs_fault io (dirname path)")
  case (Some e)
  then show ?thesis by (simp add: save_vector_database_def)
next
  case None
  show ?thesis
  proof (cases "vector_index s")
    case n: None
    with None show ?thesis
      by (cases "write_fault io (path @ ''.pkl'')") (simp_all add: save_vector_database_def)
  next
    case (Some idx)
    show ?thesis
    proof (cases "ntotal idx > 0")
      case False
      with None Some show ?thesis
        by (cases "write_fault io (path @ ''.pkl'')") (simp_all add: save_vector_database_def)
    next
      case True
      show ?thesis
      proof (cases "write_fault io (path @ ''.faiss'')")
        case f: (Some e)
        with None Some True show ?thesis by (simp add: save_vector_database_def)
      next
        case f: None
        with None Some True show ?thesis
          by (cases "write_fault io (path @ ''.pkl'')") (simp_all add: save_vector_database_def)
      qed
    qed
  qed
qed

theorem save_writes_witness:
  "fst (save_vector_database no_faults fresh_store no_files ''data/medical_vector_store'') = Inr () \<and>
   snd (save_vector_database no_faults fresh_store no_files ''data/medical_vector_store'')
     ''data/medical_vector_store.pkl'' = Some (PickleBlob [] [] None) \<and>
   snd (save_vector_database no_faults fresh_store no_files ''data/medical_vector_store'')
     ''data/medical_vector_store.faiss'' = None \<and>
   snd (save_vector_database no_faults two_store no_files ''data/medical_vector_store'')
     ''data/medical_vector_store.faiss'' = Some (FaissBlob ((new_index 2)\<lparr>vectors := [5, 5]\<rparr>))"
  using save_writes[of no_faults "''data/medical_vector_store''" fresh_store no_files]
    save_writes[of no_faults "''data/medical_vector_store''" two_store no_files]
  by (simp add: no_faults_def fresh_store_def no_files_def two_store_value ntotal_def)

text \<open>
  The claim C10 as stated fails where an earlier save left an index file: the save
  of an empty corpus writes the side file and leaves that index file in place, so
  the snapshot has an index file.
\<close>

theorem save_stale_index_counterexample:
  "fst (save_vector_database no_faults fresh_store stale_index_file ''data/medical_vector_store'') =
     Inr () \<and>
   snd (save_vector_database no_faults fresh_store stale_index_file ''data/medical_vector_store'')
     ''data/medical_vector_store.pkl'' = Some (PickleBlob [] [] None) \<and>
   snd (save_vector_database no_faults fresh_store stale_index_file ''data/medical_vector_store'')
     ''data/medical_vector_store.faiss'' \<noteq> None"
  by (simp add: save_vector_database_def no_faults_def fresh_store_def stale_index_file_def
      no_files_def)

subsection \<open>The chunker\<close>

lemma upt_shift: "[i ..< i + Suc n] = i # [Suc i ..< Suc i + n]"
  by (simp add: upt_conv_Cons del: upt_Suc)

lemma enhance_texts:
  "map chunk_text (enhance i chunks) = filter (\<lambda>c. 50 \<le> length c) (map strip chunks)"
  by (induction chunks arbitrary: i) (simp_all add: Let_def)

lemma enhance_ids:
  "chunk_ids (enhance i chunks) =
     map fst (filter (\<lambda>(j, c). 50 \<le> length (strip c)) (zip [i ..< i + length chunks] chunks))"
proof (induction chunks arbitrary: i)
  case Nil
  then show ?case by (simp add: chunk_ids_def)
next
  case (Cons c chunks)
  have z: "zip [i ..< i + length (c # chunks)] (c # chunks) =
      (i, c) # zip [Suc i ..< Suc i + length chunks] chunks"
    using upt_shift[of i "length chunks"] by (simp del: upt_Suc)
  from Cons[of "Suc i"] show ?case
    unfolding z by (simp add: Let_def chunk_ids_def)
qed

lemma enumerate_ids_sorted:
  "sorted_wrt (<) (map fst (filter P (zip [i ..< i + length chunks] chunks)))"
proof -
  have "map fst (zip [i ..< i + length chunks] chunks) = [i ..< i + length chunks]"
    by (simp add: map_fst_zip_take)
  then have "sorted_wrt (<) (map fst (zip [i ..< i + length chunks] chunks))"
    by (simp only: sorted_wrt_upt)
  then have "sorted_wrt (\<lambda>a b. fst a < fst b) (zip [i ..< i + length chunks] chunks)"
    by (simp only: sorted_wrt_map)
  then have "sorted_wrt (\<lambda>a b. fst a < fst b) (filter P (zip [i ..< i + length chunks] chunks))"
    by (rule sorted_wrt_filter)
  then show ?thesis by (simp only: sorted_wrt_map)
qed

lemma enhance_all_kept:
  "list_all (\<lambda>c. 50 \<le> length (strip c)) chunks \<Longrightarrow>
   chunk_ids (enhance i chunks) = [i ..< i + length chunks] \<and>
   length (enhance i chunks) = length chunks"
proof (induction chunks arbitrary: i)
  case Nil
  then show ?case by (simp add: chunk_ids_def)
next
  case (Cons c chunks)
  from Cons.prems have "list_all (\<lambda>c. 50 \<le> length (strip c)) chunks" "50 \<le> length (strip c)"
    by simp_all
  with Cons.IH[of "Suc i"] upt_shift[of i "length chunks"] show ?case
    by (simp add: Let_def chunk_ids_def del: upt_Suc)
qed

text \<open>
  Claim C5, amended. Every passage produced is a trimmed chunk of at least 50
  characters, in the splitter's order, and every shorter trimmed chunk is left out.
  The id of a passage is the position of its chunk in the splitter's output, the
  chunks left out counted too: the ids increase strictly in output order, and they
  are 0, 1, 2, ... without a gap when no chunk is left out.
\<close>

theorem chunk_ids_positions:
  "list_all (\<lambda>p. 50 \<le> length (chunk_text p)) (create_smart_chunks split_text text) \<and>
   map chunk_text (create_smart_chunks split_text text) =
     filter (\<lambda>c. 50 \<le> length c) (map strip (split_text text)) \<and>
   chunk_ids (create_smart_chunks split_text text) =
     map fst (filter (\<lambda>(j, c). 50 \<le> length (strip c))
               (zip [0 ..< length (split_text text)] (split_text text))) \<and>
   sorted_wrt (<) (chunk_ids (create_smart_chunks split_text text)) \<and>
   (list_all (\<lambda>c. 50 \<le> length (strip c)) (split_text text) \<longrightarrow>
      chunk_ids (create_smart_chunks split_text text) =
        [0 ..< length (create_smart_chunks split_text text)])"
proof -
  let ?r = "create_smart_chunks split_text text"
  have t: "map chunk_text ?r = filter (\<lambda>c. 50 \<le> length c) (map strip (split_text text))"
    by (simp add: create_smart_chunks_def enhance_texts)
  have "list_all (\<lambda>c. 50 \<le> length c) (map chunk_text ?r)"
    unfolding t by (simp add: list_all_iff)
  then have a: "list_all (\<lambda>p. 50 \<le> length (chunk_text p)) ?r"
    by (simp add: list_all_iff)
  have i: "chunk_ids ?r =
     map fst (filter (\<lambda>(j, c). 50 \<le> length (strip c))
               (zip [0 ..< length (split_text text)] (split_text text)))"
    using enhance_ids[of 0 "split_text text"] by (simp add: create_smart_chunks_def)
  have s: "sorted_wrt (<) (chunk_ids ?r)"
    unfolding i using enumerate_ids_sorted[of _ 0 "split_text text"] by simp
  have k: "list_all (\<lambda>c. 50 \<le> length (strip c)) (split_text text) \<longrightarrow>
      chunk_ids ?r = [0 ..< length ?r]"
    using enhance_all_kept[of "split_text text" 0] by (simp add: create_smart_chunks_def)
  from a t i s k show ?thesis by blast
qed

lemma strip_replicate:
  "\<not> py_isspace a \<Longrightarrow> strip (replicate n a) = replicate n a"
  by (cases n) (simp_all add: strip_def replicate_append_same)

lemma not_space_a: "\<not> py_isspace CHR ''a''" by (simp add: py_isspace_def)
lemma not_space_b: "\<not> py_isspace CHR ''b''" by (simp add: py_isspace_def)

lemma strip_heading: "strip ''Hi.'' = ''Hi.''"
  by (simp add: strip_def py_isspace_def)

text \<open>
  The claim C5 as stated fails on a text that opens with a short heading: the
  heading is a chunk of its own, it is left out, and the two passages produced carry
  the ids 1 and 2.
\<close>

theorem chunk_ids_gap_counterexample:
  "chunk_ids (create_smart_chunks heading_splitter heading_text) = [1, 2] \<and>
   chunk_ids (create_smart_chunks heading_splitter heading_text) \<noteq>
     [0 ..< length (create_smart_chunks heading_splitter heading_text)]"
proof -
  have "chunk_ids (create_smart_chunks heading_splitter heading_text) = [1, 2]"
    by (simp add: create_smart_chunks_def heading_splitter_def chunk_ids_def Let_def
        strip_heading strip_replicate not_space_a)
  moreover have "length (create_smart_chunks heading_splitter heading_text) = 2"
    by (simp add: create_smart_chunks_def heading_splitter_def Let_def
        strip_heading strip_replicate not_space_a)
  ultimately show ?thesis by (simp add: upt_conv_Cons)
qed

theorem chunk_ids_positions_witness:
  "list_all (\<lambda>c. 50 \<le> length (strip c)) (paragraph_splitter ''text'') \<and>
   chunk_ids (create_smart_chunks paragraph_splitter ''text'') = [0, 1] \<and>
   map chunk_text (create_smart_chunks paragraph_splitter ''text'') =
     [replicate 60 CHR ''a'', replicate 60 CHR ''b'']"
proof -
  have h: "list_all (\<lambda>c. 50 \<le> length (strip c)) (paragraph_splitter ''text'')"
    by (simp add: paragraph_splitter_def strip_replicate not_space_a not_space_b)
  have l: "map strip (paragraph_splitter ''text'') = [replicate 60 CHR ''a'', replicate 60 CHR ''b'']"
    by (simp add: paragraph_splitter_def strip_replicate not_space_a not_space_b)
  from chunk_ids_positions[of paragraph_splitter "''text''"] h
  have "chunk_ids (create_smart_chunks paragraph_splitter ''text'') =
      [0 ..< length (create_smart_chunks paragraph_splitter ''text'')]"
    and m: "map chunk_text (create_smart_chunks paragraph_splitter ''text'') =
      filter (\<lambda>c. 50 \<le> length c) (map strip (paragraph_splitter ''text''))"
    by blast+
  moreover have "length (map chunk_text (create_smart_chunks paragraph_splitter ''text'')) = 2"
    unfolding m l by simp
  then have "length (create_smart_chunks paragraph_splitter ''text'') = 2"
    by (simp only: length_map)
  ultimately show ?thesis using h l by (simp add: upt_conv_Cons)
qed

subsection \<open>The normalizer\<close>


text \<open>
  The character classes on the eight bits of a character, the lowest first, and the
  word boundary after the first literal: equations for evaluating the normalizer on
  concrete texts.
\<close>

lemma is_digit_bits:
  "is_digit (Char b0 b1 b2 b3 b4 b5 b6 b7) =
     (\<not> b7 \<and> \<not> b6 \<and> b5 \<and> b4 \<and> (\<not> b3 \<or> (\<not> b2 \<and> \<not> b1)))"
  by (cases b0; cases b1; cases b2; cases b3; cases b4; cases b5; cases b6; cases b7)
     (simp_all add: is_digit_def)

lemma is_upper_bits:
  "is_upper (Char b0 b1 b2 b3 b4 b5 b6 b7) =
     (\<not> b7 \<and> b6 \<and> \<not> b5 \<and> (b4 \<or> b3 \<or> b2 \<or> b1 \<or> b0) \<and> \<not> (b4 \<and> b3 \<and> (b2 \<or> (b1 \<and> b0))))"
  by (cases b0; cases b1; cases b2; cases b3; cases b4; cases b5; cases b6; cases b7)
     (simp_all add: is_upper_def)

lemma py_isspace_bits:
  "py_isspace (Char b0 b1 b2 b3 b4 b5 b6 b7) =
     ((\<not> b7 \<and> \<not> b6 \<and> \<not> b5 \<and> \<not> b4 \<and> b3 \<and> ((\<not> b2 \<and> (b1 \<or> b0)) \<or> (b2 \<and> \<not> b1)))
      \<or> (\<not> b7 \<and> \<not> b6 \<and> \<not> b5 \<and> b4 \<and> b3 \<and> b2)
      \<or> (\<not> b6 \<and> b5 \<and> \<not> b4 \<and> \<not> b3 \<and> \<not> b2 \<and> \<not> b1 \<and> \<not> b0)
      \<or> (b7 \<and> \<not> b6 \<and> \<not> b5 \<and> \<not> b4 \<and> \<not> b3 \<and> b2 \<and> \<not> b1 \<and> b0))"
  by (cases b0; cases b1; cases b2; cases b3; cases b4; cases b5; cases b6; cases b7)
     (simp_all add: py_isspace_def)

lemma is_word_bits:
  "is_word (Char b0 b1 b2 b3 b4 b5 b6 b7) =
     ((\<not> b7 \<and> ((\<not> b6 \<and> b5 \<and> b4 \<and> (\<not> b3 \<or> (\<not> b2 \<and> \<not> b1)))
               \<or> (b6 \<and> (b4 \<or> b3 \<or> b2 \<or> b1 \<or> b0) \<and> \<not> (b4 \<and> b3 \<and> (b2 \<or> (b1 \<and> b0))))
               \<or> (b6 \<and> \<not> b5 \<and> b4 \<and> b3 \<and> b2 \<and> b1 \<and> b0)))
      \<or> (b7 \<and> b6 \<and> \<not> (b4 \<and> \<not> b3 \<and> b2 \<and> b1 \<and> b0))
      \<or> (b7 \<and> \<not> b6 \<and> b5 \<and>
           ((\<not> b4 \<and> b3 \<and> \<not> b2 \<and> b1 \<and> \<not> b0)
            \<or> (b4 \<and> ((\<not> b3 \<and> \<not> b2 \<and> b1) \<or> (\<not> b3 \<and> b2 \<and> \<not> b1 \<and> b0)
                       \<or> (b3 \<and> \<not> b2 \<and> (b1 \<noteq> b0)) \<or> (b3 \<and> b2 \<and> \<not> (b1 \<and> b0)))))))"
  by (cases b0; cases b1; cases b2; cases b3; cases b4; cases b5; cases b6; cases b7)
     (simp_all add: is_word_def)

lemma lower_char_bits:
  "lower_char (Char b0 b1 b2 b3 b4 b5 b6 b7) =
     (if b6 \<and> \<not> b5 \<and>
         ((\<not> b7 \<and> (b4 \<or> b3 \<or> b2 \<or> b1 \<or> b0) \<and> \<not> (b4 \<and> b3 \<and> (b2 \<or> (b1 \<and> b0))))
          \<or> (b7 \<and> \<not> (b4 \<and> b2 \<and> b1 \<and> b0)))
      then Char b0 b1 b2 b3 b4 True b6 b7 else Char b0 b1 b2 b3 b4 b5 b6 b7)"
  by (cases b0; cases b1; cases b2; cases b3; cases b4; cases b5; cases b6; cases b7)
     (simp_all add: lower_char_def char_of_def bit_numeral_simps bit_Suc_0_iff)

lemma degree_sign: "char_of (176 :: nat) = CHR 0xB0"
  by (simp add: char_of_def bit_numeral_simps bit_Suc_0_iff)

lemma match_boundary_first:
  "match_here (Boundary # Ch p # pat) prev (c # cs) =
     (if p c then (if word_at prev \<noteq> is_word c then map_option Suc (match_here pat (Some c) cs) else None)
      else None)"
  by (simp add: word_at_def first_char_def)

lemmas eval_rules = preprocess_medical_text_def re_sub_def lit_def lit_ignorecase_def plus_def
  star_def lazy_star_def medical_abbrevs_def expand_def allowed_def is_word_bits is_digit_bits
  is_upper_bits py_isspace_bits lower_char_bits newline_def not_newline_def word_at_def
  first_char_def strip_def Let_def degree_sign match_boundary_first

lemma match_star_total: "match_here [Rep p 0 True] prev s \<noteq> None"
  by (induction s arbitrary: prev) (auto split: option.splits)

lemma match_plus_first:
  "p c \<Longrightarrow> \<exists>n. match_here [plus p] prev (c # cs) = Some (Suc n)"
  using match_star_total[of p "Some c" cs] by (auto simp: plus_def)

lemma collapse_chars:
  "x \<in> set (sub_from [plus py_isspace] (\<lambda>m. '' '') prev skip s) \<Longrightarrow>
   x = CHR '' '' \<or> \<not> py_isspace x"
proof (induction s arbitrary: prev skip)
  case Nil
  then show ?case by simp
next
  case (Cons c cs)
  show ?case
  proof (cases "0 < skip")
    case True
    with Cons.prems have "x \<in> set (sub_from [plus py_isspace] (\<lambda>m. '' '') (Some c) (skip - 1) cs)"
      by simp
    then show ?thesis by (rule Cons.IH)
  next
    case False
    show ?thesis
    proof (cases "py_isspace c")
      case True
      from match_plus_first[of py_isspace c prev cs, OF True] obtain n where
        "match_here [plus py_isspace] prev (c # cs) = Some (Suc n)" by blast
      with Cons.prems False have
        "x = CHR '' '' \<or> x \<in> set (sub_from [plus py_isspace] (\<lambda>m. '' '') (Some c) n cs)"
        by auto
      then show ?thesis using Cons.IH by blast
    next
      case nsp: False
      then have "match_here [plus py_isspace] prev (c # cs) = None"
        by (simp add: plus_def)
      with Cons.prems False have
        "x = c \<or> x \<in> set (sub_from [plus py_isspace] (\<lambda>m. '' '') (Some c) 0 cs)"
        by auto
      then show ?thesis using Cons.IH nsp by blast
    qed
  qed
qed

lemma sub_from_chars:
  assumes "\<And>m. m \<noteq> [] \<Longrightarrow> set (repl m) \<subseteq> set m \<union> A"
  shows "set (sub_from pat repl prev skip s) \<subseteq> set s \<union> A"
proof (induction s arbitrary: prev skip)
  case Nil
  then show ?case by simp
next
  case (Cons c cs)
  show ?case
  proof (cases "0 < skip")
    case True
    then show ?thesis using Cons.IH[of "Some c" "skip - 1"] by auto
  next
    case False
    show ?thesis
    proof (cases "match_here pat prev (c # cs)")
      case None
      with False show ?thesis using Cons.IH[of "Some c" 0] by auto
    next
      case (Some k)
      show ?thesis
      proof (cases k)
        case 0
        with Some False show ?thesis using Cons.IH[of "Some c" 0] by auto
      next
        case (Suc n)
        have "set (repl (take (Suc n) (c # cs))) \<subseteq> set (take (Suc n) (c # cs)) \<union> A"
          by (rule assms) simp
        moreover have "set (take (Suc n) (c # cs)) \<subseteq> set (c # cs)"
          by (rule set_take_subset)
        ultimately have "set (repl (take (Suc n) (c # cs))) \<subseteq> set (c # cs) \<union> A"
          by blast
        with Some Suc False show ?thesis using Cons.IH[of "Some c" n] by auto
      qed
    qed
  qed
qed

lemma sub_from_no_start:
  "\<forall>c \<in> set s. \<not> p c \<Longrightarrow> sub_from (Ch p # pat) repl prev 0 s = s"
  by (induction s arbitrary: prev) simp_all

lemma strip_chars: "set (strip s) \<subseteq> set s"
proof -
  have "set (strip s) \<subseteq> set (dropWhile py_isspace s)"
    unfolding strip_def using set_dropWhileD[of _ py_isspace "rev (dropWhile py_isspace s)"]
    by auto
  also have "\<dots> \<subseteq> set s" using set_dropWhileD by fastforce
  finally show ?thesis .
qed

lemma space_newline: "py_isspace newline" "newline \<noteq> CHR '' ''"
  by (simp_all add: py_isspace_def newline_def)

text \<open>
  Claim C4 on the code. No newline is left in any text that
  \<open>preprocess_medical_text\<close> returns, so no paragraph break of the input is: the
  collapse of whitespace runs turns every newline into a space before the pattern
  for paragraph breaks is applied, and that pattern then finds nothing. Two
  paragraphs come out as one line.
\<close>

theorem paragraph_breaks_collapsed:
  "newline \<notin> set (preprocess_medical_text text) \<and>
   preprocess_medical_text ''First.\<newline>\<newline>Second.'' = ''First. Second.''"
proof
  define text4 where "text4 = foldl expand
     (re_sub [Ch (\<lambda>c. c = newline), plus is_digit, Ch (\<lambda>c. c = newline)] (\<lambda>m. [newline])
       (re_sub (lit ''Chapter '' @ [plus is_digit, lazy_star not_newline, Ch (\<lambda>c. c = newline)])
          (\<lambda>m. '''')
          (re_sub (lit ''Page '' @ [plus is_digit, lazy_star not_newline, Ch (\<lambda>c. c = newline)])
             (\<lambda>m. '''') text)))
     medical_abbrevs"
  define text5 where "text5 = re_sub [plus py_isspace] (\<lambda>m. '' '') text4"
  define text6 where "text6 =
    re_sub [Ch (\<lambda>c. c = newline), star py_isspace, Ch (\<lambda>c. c = newline)]
      (\<lambda>m. [newline, newline]) text5"
  define text7 where "text7 = re_sub [Ch (\<lambda>c. \<not> allowed c)] (\<lambda>m. '' '') text6"
  define text8 where "text8 =
    re_sub [plus py_isspace, Ch (\<lambda>c. c \<in> set '',.!?;:'')] (\<lambda>m. [last m]) text7"
  define text9 where "text9 =
    re_sub [Ch (\<lambda>c. c \<in> set ''.!?''), star py_isspace, Ch is_upper]
      (\<lambda>m. [hd m, CHR '' '', last m]) text8"
  have res: "preprocess_medical_text text = strip text9"
    by (simp add: preprocess_medical_text_def Let_def text4_def text5_def text6_def text7_def
        text8_def text9_def)
  have n5: "newline \<notin> set text5"
    using collapse_chars[of newline None 0 text4] space_newline
    by (auto simp: text5_def re_sub_def)
  then have "text6 = text5"
    unfolding text6_def re_sub_def by (intro sub_from_no_start) auto
  with n5 have n6: "newline \<notin> set text6" by simp
  have "set text7 \<subseteq> set text6 \<union> {CHR '' ''}"
    unfolding text7_def re_sub_def by (rule sub_from_chars) simp
  with n6 space_newline have n7: "newline \<notin> set text7" by auto
  have "set text8 \<subseteq> set text7 \<union> {}"
    unfolding text8_def re_sub_def
  proof (rule sub_from_chars)
    fix m :: string
    assume "m \<noteq> []"
    then show "set [last m] \<subseteq> set m \<union> {}"
      by simp
  qed
  with n7 have n8: "newline \<notin> set text8" by auto
  have "set text9 \<subseteq> set text8 \<union> {CHR '' ''}"
    unfolding text9_def re_sub_def
  proof (rule sub_from_chars)
    fix m :: string
    assume "m \<noteq> []"
    then show "set [hd m, CHR '' '', last m] \<subseteq> set m \<union> {CHR '' ''}"
      by simp
  qed
  with n8 space_newline have "newline \<notin> set text9" by auto
  with strip_chars[of text9] show "newline \<notin> set (preprocess_medical_text text)"
    unfolding res by blast
next
  show "preprocess_medical_text ''First.\<newline>\<newline>Second.'' = ''First. Second.''"
    by (simp add: eval_rules cong: option.case_cong_weak nat.case_cong_weak)
qed

lemma special_character_pass: "preprocess_medical_text ''a@ b'' = ''a  b''"
  by (simp add: eval_rules cong: option.case_cong_weak nat.case_cong_weak)

lemma double_space_pass: "preprocess_medical_text ''a  b'' = ''a b''"
  by (simp add: eval_rules cong: option.case_cong_weak nat.case_cong_weak)

lemma hash_pass: "preprocess_medical_text ''a (b) #c d'' = ''a (b)  c d''"
  by (simp add: eval_rules cong: option.case_cong_weak nat.case_cong_weak)

lemma hash_again: "preprocess_medical_text ''a (b)  c d'' = ''a (b) c d''"
  by (simp add: eval_rules cong: option.case_cong_weak nat.case_cong_weak)

text \<open>
  Claim C7 on the code. The normalizer is not idempotent: a character outside the
  allowed set is replaced by a space only after the runs of whitespace were
  collapsed, so next to a space it leaves two spaces in a row, and a second pass
  collapses them. The first pass of \<open>a@ b\<close> returns the text with two spaces, the
  second pass the text with one; the same holds for a text with a \<open>#\<close> after a
  space.
\<close>

theorem normalizer_second_pass_differs:
  "preprocess_medical_text ''a@ b'' = ''a  b'' \<and>
   preprocess_medical_text (preprocess_medical_text ''a@ b'') = ''a b'' \<and>
   preprocess_medical_text (preprocess_medical_text ''a@ b'') \<noteq> preprocess_medical_text ''a@ b'' \<and>
   preprocess_medical_text ''a (b) #c d'' = ''a (b)  c d'' \<and>
   preprocess_medical_text (preprocess_medical_text ''a (b) #c d'') = ''a (b) c d''"
  by (simp add: special_character_pass double_space_pass hash_pass hash_again)

subsection \<open>The second pass of the normalizer\<close>

lemma match_tail_class:
  "match_here [Rep p 0 True, Ch q] prev s = Some k \<Longrightarrow>
   0 < k \<and> k \<le> length s \<and> q (s ! (k - 1))"
proof (induction s arbitrary: prev k)
  case Nil
  then show ?case by simp
next
  case (Cons c cs)
  show ?case
  proof (cases "if p c then match_here [Rep p 0 True, Ch q] (Some c) cs else None")
    case None
    with Cons.prems have "q c" "k = 1" by (auto split: if_splits)
    then show ?thesis by simp
  next
    case (Some n)
    with Cons.prems have k: "k = Suc n" by simp
    from Some have "match_here [Rep p 0 True, Ch q] (Some c) cs = Some n"
      by (simp split: if_splits)
    from Cons.IH[OF this] k show ?thesis by (cases n) auto
  qed
qed

lemma match_plus_class:
  assumes "match_here [plus p, Ch q] prev (c # cs) = Some k"
  shows "p c \<and> 2 \<le> k \<and> k \<le> length (c # cs) \<and> q ((c # cs) ! (k - 1))"
proof -
  from assms have pc: "p c" by (auto simp: plus_def split: if_splits)
  with assms obtain n where n: "match_here [Rep p 0 True, Ch q] (Some c) cs = Some n" "k = Suc n"
    by (auto simp: plus_def)
  from match_tail_class[OF n(1)] n(2) pc show ?thesis by (cases n) auto
qed

lemma match_sentence_class:
  assumes "match_here [Ch e, star p, Ch q] prev (c # cs) = Some k"
  shows "e c \<and> 2 \<le> k \<and> k \<le> length (c # cs) \<and> q ((c # cs) ! (k - 1))"
proof -
  from assms have ec: "e c" by (auto simp: star_def split: if_splits)
  with assms obtain n where n: "match_here [Rep p 0 True, Ch q] (Some c) cs = Some n" "k = Suc n"
    by (auto simp: star_def)
  from match_tail_class[OF n(1)] n(2) ec show ?thesis by (cases n) auto
qed

lemma last_take:
  assumes "0 < k" "k \<le> length s"
  shows "last (take k s) = s ! (k - 1)"
proof -
  from assms have ne: "take k s \<noteq> []" by auto
  from assms have len: "length (take k s) = k" by simp
  have "last (take k s) = take k s ! (k - 1)"
    using last_conv_nth[OF ne] len by simp
  also have "\<dots> = s ! (k - 1)" using assms by (intro nth_take) simp
  finally show ?thesis .
qed

lemma punct_not_space: "is_punct c \<Longrightarrow> \<not> py_isspace c"
  by (auto simp: py_isspace_def is_punct_def)

lemma upper_not_space: "is_upper c \<Longrightarrow> \<not> py_isspace c"
  by (auto simp: py_isspace_def is_upper_def Let_def)

lemma upper_not_punct: "is_upper c \<Longrightarrow> \<not> is_punct c"
  by (auto simp: is_upper_def is_punct_def)

lemma blank_facts:
  "py_isspace CHR '' ''" "\<not> is_punct CHR '' ''" "\<not> is_upper CHR '' ''"
  by (simp_all add: py_isspace_def is_upper_def is_punct_def)

lemma space_punct_unmatched:
  assumes "py_isspace c" and "match_here space_punct prev (c # c' # cs) = None"
  shows "\<not> is_punct c' \<and> match_here space_punct prev' (c' # cs) = None"
proof -
  from assms have tail: "match_here [Rep py_isspace 0 True, Ch is_punct] (Some c) (c' # cs) = None"
    by (simp add: plus_def)
  show ?thesis
  proof (cases "py_isspace c'")
    case True
    with tail have "match_here [Rep py_isspace 0 True, Ch is_punct] (Some c') cs = None" "\<not> is_punct c'"
      by (auto split: option.splits if_splits)
    with True show ?thesis by (simp add: plus_def)
  next
    case False
    with tail have "\<not> is_punct c'" by (auto split: if_splits)
    with False show ?thesis by (simp add: plus_def)
  qed
qed

lemma space_punct_output:
  "successively no_space_punct (sub_from space_punct (\<lambda>m. [last m]) prev skip s)"
proof (induction s arbitrary: prev skip)
  case Nil
  show ?case by simp
next
  case (Cons c cs)
  show ?case
  proof (cases "0 < skip")
    case True
    then show ?thesis using Cons.IH[of "Some c" "skip - 1"] by simp
  next
    case False
    show ?thesis
    proof (cases "match_here space_punct prev (c # cs)")
      case None
      with False have out: "sub_from space_punct (\<lambda>m. [last m]) prev skip (c # cs) =
          c # sub_from space_punct (\<lambda>m. [last m]) (Some c) 0 cs" by simp
      have "cs = [] \<or> no_space_punct c (hd (sub_from space_punct (\<lambda>m. [last m]) (Some c) 0 cs))"
      proof (cases cs)
        case Nil
        then show ?thesis by simp
      next
        case (Cons c' cs')
        show ?thesis
        proof (cases "py_isspace c")
          case True
          from space_punct_unmatched[OF True None[unfolded Cons], of "Some c"]
          have "\<not> is_punct c'" "match_here space_punct (Some c) (c' # cs') = None" by simp_all
          then show ?thesis using Cons by (simp add: no_space_punct_def)
        next
          case False
          then show ?thesis by (simp add: no_space_punct_def)
        qed
      qed
      then show ?thesis unfolding out using Cons.IH[of "Some c" 0]
        by (auto simp: successively_Cons no_space_punct_def)
    next
      case (Some k)
      note mk = match_plus_class[OF Some]
      from mk have k: "2 \<le> k" "k \<le> length (c # cs)"
        "is_punct ((c # cs) ! (k - 1))" by blast+
      then obtain n where n: "k = Suc n" by (cases k) auto
      from k have "last (take k (c # cs)) = (c # cs) ! (k - 1)"
        by (intro last_take) simp_all
      with k have lp: "is_punct (last (take (Suc n) (c # cs)))" using n by simp
      from Some n False have out: "sub_from space_punct (\<lambda>m. [last m]) prev skip (c # cs) =
          last (take (Suc n) (c # cs)) # sub_from space_punct (\<lambda>m. [last m]) (Some c) n cs"
        by simp
      show ?thesis unfolding out using Cons.IH[of "Some c" n] punct_not_space[OF lp]
        by (auto simp: successively_Cons no_space_punct_def)
    qed
  qed
qed

lemma upper_not_ender: "is_upper c \<Longrightarrow> \<not> is_ender c"
  by (auto simp: is_upper_def is_ender_def)

lemma ender_not_space: "is_ender c \<Longrightarrow> \<not> py_isspace c"
  by (auto simp: py_isspace_def is_ender_def)

lemma blank_not_ender: "\<not> is_ender CHR '' ''"
  by (simp add: is_ender_def)

lemma sentence_capital_head:
  "hd (sub_from sentence_capital (\<lambda>m. [hd m, CHR '' '', last m]) prev 0 (c # cs)) = c"
proof (cases "match_here sentence_capital prev (c # cs)")
  case None
  then show ?thesis by simp
next
  case (Some k)
  then show ?thesis by (cases k) simp_all
qed

lemma sentence_capital_adjacent:
  assumes "is_ender c" "is_upper c'"
  shows "match_here sentence_capital prev (c # c' # cs) = Some 2"
  using assms upper_not_space[of c'] by (simp add: star_def)

lemma sentence_capital_keeps:
  "successively no_space_punct s \<Longrightarrow>
   successively no_space_punct
     (sub_from sentence_capital (\<lambda>m. [hd m, CHR '' '', last m]) prev skip s)"
proof (induction s arbitrary: prev skip)
  case Nil
  show ?case by simp
next
  case (Cons c cs)
  from Cons.prems have tail: "successively no_space_punct cs"
    by (auto simp: successively_Cons)
  note IH = Cons.IH[OF tail]
  show ?case
  proof (cases "0 < skip")
    case True
    then show ?thesis using IH[of "Some c" "skip - 1"] by simp
  next
    case False
    show ?thesis
    proof (cases "match_here sentence_capital prev (c # cs)")
      case None
      with False have out:
        "sub_from sentence_capital (\<lambda>m. [hd m, CHR '' '', last m]) prev skip (c # cs) =
          c # sub_from sentence_capital (\<lambda>m. [hd m, CHR '' '', last m]) (Some c) 0 cs" by simp
      have "cs = [] \<or> no_space_punct c
          (hd (sub_from sentence_capital (\<lambda>m. [hd m, CHR '' '', last m]) (Some c) 0 cs))"
      proof (cases cs)
        case Nil
        then show ?thesis by simp
      next
        case next_char: (Cons c' cs')
        from \<open>successively no_space_punct (c # cs)\<close> have "no_space_punct c c'"
          unfolding next_char by simp
        then show ?thesis using sentence_capital_head[of "Some c" c' cs'] next_char
          by simp
      qed
      then show ?thesis unfolding out using IH[of "Some c" 0]
        by (auto simp: successively_Cons)
    next
      case (Some k)
      note mk = match_sentence_class[OF Some]
      from mk have k: "2 \<le> k" "k \<le> length (c # cs)" "is_upper ((c # cs) ! (k - 1))"
        by blast+
      then obtain n where n: "k = Suc n" by (cases k) auto
      from k have "last (take k (c # cs)) = (c # cs) ! (k - 1)"
        by (intro last_take) simp_all
      with k have lu: "is_upper (last (take (Suc n) (c # cs)))" using n by simp
      from Some n False have out:
        "sub_from sentence_capital (\<lambda>m. [hd m, CHR '' '', last m]) prev skip (c # cs) =
          c # CHR '' '' # last (take (Suc n) (c # cs)) #
            sub_from sentence_capital (\<lambda>m. [hd m, CHR '' '', last m]) (Some c) n cs"
        by simp
      show ?thesis unfolding out
        using IH[of "Some c" n] upper_not_space[OF lu] upper_not_punct[OF lu] blank_facts
        by (auto simp: successively_Cons no_space_punct_def)
    qed
  qed
qed

lemma sentence_capital_output:
  "successively no_ender_upper
     (sub_from sentence_capital (\<lambda>m. [hd m, CHR '' '', last m]) prev skip s)"
proof (induction s arbitrary: prev skip)
  case Nil
  show ?case by simp
next
  case (Cons c cs)
  note IH = Cons.IH
  show ?case
  proof (cases "0 < skip")
    case True
    then show ?thesis using IH[of "Some c" "skip - 1"] by simp
  next
    case False
    show ?thesis
    proof (cases "match_here sentence_capital prev (c # cs)")
      case None
      with False have out:
        "sub_from sentence_capital (\<lambda>m. [hd m, CHR '' '', last m]) prev skip (c # cs) =
          c # sub_from sentence_capital (\<lambda>m. [hd m, CHR '' '', last m]) (Some c) 0 cs" by simp
      have "cs = [] \<or> no_ender_upper c
          (hd (sub_from sentence_capital (\<lambda>m. [hd m, CHR '' '', last m]) (Some c) 0 cs))"
      proof (cases cs)
        case Nil
        then show ?thesis by simp
      next
        case next_char: (Cons c' cs')
        have "no_ender_upper c c'"
          using sentence_capital_adjacent[of c c' prev cs'] None next_char
          by (auto simp: no_ender_upper_def)
        then show ?thesis using sentence_capital_head[of "Some c" c' cs'] next_char
          by simp
      qed
      then show ?thesis unfolding out using IH[of "Some c" 0]
        by (auto simp: successively_Cons)
    next
      case (Some k)
      note mk = match_sentence_class[OF Some]
      from mk have k: "2 \<le> k" "k \<le> length (c # cs)" "is_upper ((c # cs) ! (k - 1))"
        by blast+
      then obtain n where n: "k = Suc n" by (cases k) auto
      from k have "last (take k (c # cs)) = (c # cs) ! (k - 1)"
        by (intro last_take) simp_all
      with k have lu: "is_upper (last (take (Suc n) (c # cs)))" using n by simp
      from Some n False have out:
        "sub_from sentence_capital (\<lambda>m. [hd m, CHR '' '', last m]) prev skip (c # cs) =
          c # CHR '' '' # last (take (Suc n) (c # cs)) #
            sub_from sentence_capital (\<lambda>m. [hd m, CHR '' '', last m]) (Some c) n cs"
        by simp
      show ?thesis unfolding out
        using IH[of "Some c" n] upper_not_ender[OF lu] blank_facts blank_not_ender
        by (auto simp: successively_Cons no_ender_upper_def)
    qed
  qed
qed

lemma successively_dropWhile: "successively R s \<Longrightarrow> successively R (dropWhile P s)"
  by (induction s) (auto simp: successively_Cons)

lemma successively_strip: "successively R s \<Longrightarrow> successively R (strip s)"
proof -
  assume "successively R s"
  then have "successively R (dropWhile py_isspace s)" by (rule successively_dropWhile)
  then have "successively (\<lambda>x y. R y x) (rev (dropWhile py_isspace s))" by simp
  then have "successively (\<lambda>x y. R y x) (dropWhile py_isspace (rev (dropWhile py_isspace s)))"
    by (rule successively_dropWhile)
  then show ?thesis by (simp add: strip_def)
qed

lemma successively_tail: "successively R (a # xs) \<Longrightarrow> successively R xs"
  by (cases xs) simp_all

lemma contains_double_blank:
  "\<not> contains ''  '' s \<Longrightarrow> successively no_double_blank s"
proof (induction s)
  case Nil
  show ?case by simp
next
  case (Cons c cs)
  from Cons.prems have "\<not> contains ''  '' cs" and "\<not> prefix ''  '' (c # cs)" by simp_all
  with Cons.IH show ?case
    by (cases cs) (auto simp: no_double_blank_def)
qed

lemma special_chars_output:
  "x \<in> set (sub_from [Ch (\<lambda>c. \<not> allowed c)] (\<lambda>m. '' '') prev skip s) \<Longrightarrow> allowed x"
proof (induction s arbitrary: prev skip)
  case Nil
  then show ?case by simp
next
  case (Cons c cs)
  show ?case
  proof (cases "0 < skip")
    case True
    with Cons.prems show ?thesis using Cons.IH[of "Some c" "skip - 1"] by simp
  next
    case False
    have blank: "allowed CHR '' ''" by (simp add: allowed_def blank_facts)
    show ?thesis
    proof (cases "allowed c")
      case True
      with Cons.prems False show ?thesis using Cons.IH[of "Some c" 0] by auto
    next
      case na: False
      with Cons.prems False show ?thesis using Cons.IH[of "Some c" 0] blank by auto
    qed
  qed
qed

lemma lazy_line_unmatched:
  "newline \<notin> set s \<Longrightarrow>
   match_here [Rep not_newline 0 False, Ch (\<lambda>c. c = newline)] prev s = None"
  by (induction s arbitrary: prev) auto

lemma digits_line_unmatched:
  "newline \<notin> set s \<Longrightarrow>
   match_here [Rep is_digit 0 True, Rep not_newline 0 False, Ch (\<lambda>c. c = newline)] prev s = None"
proof (induction s arbitrary: prev)
  case Nil
  then show ?case by simp
next
  case (Cons c cs)
  from Cons.prems have "newline \<notin> set cs" by simp
  from Cons.IH[OF this] lazy_line_unmatched[OF Cons.prems] show ?case by simp
qed

lemma header_unmatched:
  "newline \<notin> set s \<Longrightarrow>
   match_here (lit w @ [plus is_digit, lazy_star not_newline, Ch (\<lambda>c. c = newline)]) prev s = None"
proof (induction w arbitrary: s prev)
  case Nil
  show ?case
  proof (cases s)
    case Nil
    then show ?thesis by (simp add: lit_def plus_def)
  next
    case (Cons c cs)
    with Nil.prems have "newline \<notin> set cs" by simp
    from digits_line_unmatched[OF this] Cons show ?thesis
      by (simp add: lit_def plus_def lazy_star_def)
  qed
next
  case (Cons x w)
  show ?case
  proof (cases s)
    case Nil
    then show ?thesis by (simp add: lit_def)
  next
    case next_char: (Cons c cs)
    with Cons.prems have "newline \<notin> set cs" by simp
    from Cons.IH[OF this, of "Some c"] next_char show ?thesis
      by (auto simp: lit_def)
  qed
qed

lemma sub_from_unmatched:
  assumes "\<And>prev t. newline \<notin> set t \<Longrightarrow> match_here pat prev t = None"
  shows "newline \<notin> set s \<Longrightarrow> sub_from pat repl prev 0 s = s"
proof (induction s arbitrary: prev)
  case Nil
  show ?case by simp
next
  case (Cons c cs)
  from assms[OF Cons.prems] Cons.IH Cons.prems show ?case by simp
qed

lemma collapse_fixed:
  "\<forall>c \<in> set s. c = CHR '' '' \<or> \<not> py_isspace c \<Longrightarrow> successively no_double_blank s \<Longrightarrow>
   sub_from [plus py_isspace] (\<lambda>m. '' '') prev 0 s = s"
proof (induction s arbitrary: prev)
  case Nil
  show ?case by simp
next
  case (Cons c cs)
  from Cons.prems(1) have t1: "\<forall>c \<in> set cs. c = CHR '' '' \<or> \<not> py_isspace c"
    by simp
  from Cons.prems(2) have t2: "successively no_double_blank cs"
    by (rule successively_tail)
  note tail = t1 t2
  note IH = Cons.IH[OF tail]
  show ?case
  proof (cases "py_isspace c")
    case False
    then show ?thesis using IH by (simp add: plus_def)
  next
    case True
    with Cons.prems have c: "c = CHR '' ''" by simp
    have "match_here [Rep py_isspace 0 True] (Some c) cs = Some 0"
    proof (cases cs)
      case Nil
      then show ?thesis by simp
    next
      case next_char: (Cons c' cs')
      from Cons.prems(2) c have "c' \<noteq> CHR '' ''"
        unfolding next_char by (simp add: no_double_blank_def)
      moreover from t1 have "c' = CHR '' '' \<or> \<not> py_isspace c'"
        unfolding next_char by simp
      ultimately have "\<not> py_isspace c'" by blast
      with next_char show ?thesis by simp
    qed
    with True have "match_here [plus py_isspace] prev (c # cs) = Some (Suc 0)"
      by (simp add: plus_def)
    then show ?thesis using IH c by simp
  qed
qed

lemma space_run_unmatched:
  "py_isspace c \<Longrightarrow> successively no_space_punct (c # cs) \<Longrightarrow>
   match_here [Rep py_isspace 0 True, Ch is_punct] prev cs = None"
proof (induction cs arbitrary: c prev)
  case Nil
  show ?case by simp
next
  case (Cons c' cs)
  from Cons.prems have np: "\<not> is_punct c'"
    by (simp add: no_space_punct_def)
  from Cons.prems(2) have tail: "successively no_space_punct (c' # cs)"
    by (rule successively_tail)
  show ?case
  proof (cases "py_isspace c'")
    case True
    from Cons.IH[OF True tail] np True show ?thesis by simp
  next
    case False
    with np show ?thesis by simp
  qed
qed

lemma space_punct_fixed:
  "successively no_space_punct s \<Longrightarrow> sub_from space_punct (\<lambda>m. [last m]) prev 0 s = s"
proof (induction s arbitrary: prev)
  case Nil
  show ?case by simp
next
  case (Cons c cs)
  from Cons.prems have tail: "successively no_space_punct cs" by (rule successively_tail)
  have "match_here space_punct prev (c # cs) = None"
  proof (cases "py_isspace c")
    case True
    from space_run_unmatched[OF True Cons.prems] True show ?thesis by (simp add: plus_def)
  next
    case False
    then show ?thesis by (simp add: plus_def)
  qed
  then show ?case using Cons.IH[OF tail] by simp
qed

lemma sentence_capital_fixed:
  "\<forall>c \<in> set s. c = CHR '' '' \<or> \<not> py_isspace c \<Longrightarrow> successively no_double_blank s \<Longrightarrow>
   successively no_ender_upper s \<Longrightarrow>
   sub_from sentence_capital (\<lambda>m. [hd m, CHR '' '', last m]) prev skip s = drop skip s"
proof (induction s arbitrary: prev skip)
  case Nil
  show ?case by simp
next
  case (Cons c cs)
  from Cons.prems(1) have t1: "\<forall>c \<in> set cs. c = CHR '' '' \<or> \<not> py_isspace c" by simp
  from Cons.prems(2) have t2: "successively no_double_blank cs" by (rule successively_tail)
  from Cons.prems(3) have t3: "successively no_ender_upper cs" by (rule successively_tail)
  note IH = Cons.IH[OF t1 t2 t3]
  show ?case
  proof (cases "0 < skip")
    case True
    then obtain j where j: "skip = Suc j" by (cases skip) auto
    then show ?thesis using IH[of "Some c" j] by simp
  next
    case False
    show ?thesis
    proof (cases "match_here sentence_capital prev (c # cs)")
      case None
      with False show ?thesis using IH[of "Some c" 0] by simp
    next
      case (Some k)
      from Some have ec: "is_ender c" by (auto simp: star_def split: if_splits)
      with Some have inner: "match_here [Rep py_isspace 0 True, Ch is_upper] (Some c) cs = Some (k - 1)"
        and k1: "0 < k"
        by (auto simp: star_def)
      from inner obtain c' cs' where cs: "cs = c' # cs'" by (cases cs) auto
      from Cons.prems(3) ec have nu: "\<not> is_upper c'"
        unfolding cs by (simp add: no_ender_upper_def)
      have sp: "py_isspace c'"
      proof (rule ccontr)
        assume "\<not> py_isspace c'"
        with inner nu show False unfolding cs by simp
      qed
      with t1 have blank: "c' = CHR '' ''" unfolding cs by simp
      from inner sp nu obtain n where
        n: "match_here [Rep py_isspace 0 True, Ch is_upper] (Some c') cs' = Some n" "k - 1 = Suc n"
        unfolding cs by (auto split: option.splits)
      from n(1) obtain c'' cs'' where cs': "cs' = c'' # cs''" by (cases cs') auto
      from t2 blank have "c'' \<noteq> CHR '' ''"
        unfolding cs cs' by (simp add: no_double_blank_def)
      moreover from t1 have "c'' = CHR '' '' \<or> \<not> py_isspace c''" unfolding cs cs' by simp
      ultimately have nsp: "\<not> py_isspace c''" by blast
      with n(1) have up: "is_upper c''" and n1: "n = 1"
        unfolding cs' by (auto split: if_splits)
      from n(2) n1 k1 have k: "k = 3" by simp
      from Some k False have out:
        "sub_from sentence_capital (\<lambda>m. [hd m, CHR '' '', last m]) prev skip (c # cs) =
          [c, CHR '' '', c''] @
            sub_from sentence_capital (\<lambda>m. [hd m, CHR '' '', last m]) (Some c) 2 cs"
        unfolding cs cs' by (simp add: numeral_3_eq_3)
      show ?thesis unfolding out using IH[of "Some c" 2] False blank
        unfolding cs cs' by simp
    qed
  qed
qed

lemma strip_strip: "strip (strip s) = strip s"
proof -
  define t where "t = dropWhile py_isspace s"
  define u where "u = rev (dropWhile py_isspace (rev t))"
  have su: "strip s = u" by (simp add: strip_def t_def u_def)
  have t_head: "t = [] \<or> \<not> py_isspace (hd t)"
    unfolding t_def using hd_dropWhile[of py_isspace s] by blast
  have ru: "rev u = dropWhile py_isspace (rev t)" by (simp add: u_def)
  then have u_last: "rev u = [] \<or> \<not> py_isspace (hd (rev u))"
    using hd_dropWhile[of py_isspace "rev t"] by auto
  have u_prefix: "\<exists>v. t = u @ v"
  proof -
    have "rev t = takeWhile py_isspace (rev t) @ dropWhile py_isspace (rev t)" by simp
    then have "t = rev (dropWhile py_isspace (rev t)) @ rev (takeWhile py_isspace (rev t))"
      by (metis rev_append rev_rev_ident)
    then show ?thesis unfolding u_def by blast
  qed
  have u_head: "u = [] \<or> \<not> py_isspace (hd u)"
  proof (cases "u = []")
    case True
    then show ?thesis by simp
  next
    case False
    with u_prefix have "hd u = hd t" "t \<noteq> []" by auto
    with t_head show ?thesis by simp
  qed
  from u_head have d1: "dropWhile py_isspace u = u"
    by (cases u) auto
  from u_last have d2: "dropWhile py_isspace (rev u) = rev u"
    by (cases "rev u") auto
  have "strip u = u" by (simp add: strip_def d1 d2)
  then show ?thesis by (simp add: su)
qed

lemma punct_class: "(\<lambda>c. c \<in> set '',.!?;:'') = is_punct"
  by (simp add: fun_eq_iff is_punct_def)

lemma ender_class: "(\<lambda>c. c \<in> set ''.!?'') = is_ender"
  by (simp add: fun_eq_iff is_ender_def)

lemma preprocess_normal_form:
  fixes x :: string
  defines "y \<equiv> preprocess_medical_text x"
  shows "(\<forall>c \<in> set y. c = CHR '' '' \<or> \<not> py_isspace c) \<and> (\<forall>c \<in> set y. allowed c) \<and>
         successively no_space_punct y \<and> successively no_ender_upper y \<and> strip y = y"
proof -
  define text4 where "text4 = foldl expand
     (re_sub [Ch (\<lambda>c. c = newline), plus is_digit, Ch (\<lambda>c. c = newline)] (\<lambda>m. [newline])
       (re_sub (lit ''Chapter '' @ [plus is_digit, lazy_star not_newline, Ch (\<lambda>c. c = newline)])
          (\<lambda>m. '''')
          (re_sub (lit ''Page '' @ [plus is_digit, lazy_star not_newline, Ch (\<lambda>c. c = newline)])
             (\<lambda>m. '''') x)))
     medical_abbrevs"
  define text5 where "text5 = re_sub [plus py_isspace] (\<lambda>m. '' '') text4"
  define text6 where "text6 =
    re_sub [Ch (\<lambda>c. c = newline), star py_isspace, Ch (\<lambda>c. c = newline)]
      (\<lambda>m. [newline, newline]) text5"
  define text7 where "text7 = re_sub [Ch (\<lambda>c. \<not> allowed c)] (\<lambda>m. '' '') text6"
  define text8 where "text8 = re_sub [plus py_isspace, Ch is_punct] (\<lambda>m. [last m]) text7"
  define text9 where "text9 =
    re_sub [Ch is_ender, star py_isspace, Ch is_upper] (\<lambda>m. [hd m, CHR '' '', last m]) text8"
  have res: "y = strip text9"
    unfolding y_def preprocess_medical_text_def Let_def text4_def text5_def text6_def
      text7_def text8_def text9_def punct_class ender_class
    by (rule refl)
  have c5: "\<forall>c \<in> set text5. c = CHR '' '' \<or> \<not> py_isspace c"
    using collapse_chars[of _ None 0 text4] by (auto simp: text5_def re_sub_def)
  with space_newline have n5: "newline \<notin> set text5" by auto
  then have e6: "text6 = text5"
    unfolding text6_def re_sub_def by (intro sub_from_no_start) auto
  have s7: "set text7 \<subseteq> set text6 \<union> {CHR '' ''}"
    unfolding text7_def re_sub_def by (rule sub_from_chars) simp
  have s8: "set text8 \<subseteq> set text7 \<union> {}"
    unfolding text8_def re_sub_def
  proof (rule sub_from_chars)
    fix m :: string
    assume "m \<noteq> []"
    then show "set [last m] \<subseteq> set m \<union> {}" by simp
  qed
  have s9: "set text9 \<subseteq> set text8 \<union> {CHR '' ''}"
    unfolding text9_def re_sub_def
  proof (rule sub_from_chars)
    fix m :: string
    assume "m \<noteq> []"
    then show "set [hd m, CHR '' '', last m] \<subseteq> set m \<union> {CHR '' ''}" by simp
  qed
  have sy: "set y \<subseteq> set text9" unfolding res by (rule strip_chars)
  have f1: "\<forall>c \<in> set y. c = CHR '' '' \<or> \<not> py_isspace c"
  proof
    fix c assume "c \<in> set y"
    with sy s9 s8 s7 e6 have "c \<in> set text5 \<or> c = CHR '' ''" by auto
    with c5 show "c = CHR '' '' \<or> \<not> py_isspace c" by auto
  qed
  have a7: "\<forall>c \<in> set text7. allowed c"
    using special_chars_output[of _ None 0 text6] by (auto simp: text7_def re_sub_def)
  have blank: "allowed CHR '' ''" by (simp add: allowed_def blank_facts)
  have f2: "\<forall>c \<in> set y. allowed c"
  proof
    fix c assume "c \<in> set y"
    with sy s9 s8 have "c \<in> set text7 \<or> c = CHR '' ''" by auto
    with a7 blank show "allowed c" by auto
  qed
  have "successively no_space_punct text8"
    unfolding text8_def re_sub_def by (rule space_punct_output)
  then have "successively no_space_punct text9"
    unfolding text9_def re_sub_def by (rule sentence_capital_keeps)
  then have f3: "successively no_space_punct y"
    unfolding res by (rule successively_strip)
  have "successively no_ender_upper text9"
    unfolding text9_def re_sub_def by (rule sentence_capital_output)
  then have f4: "successively no_ender_upper y"
    unfolding res by (rule successively_strip)
  have f5: "strip y = y" unfolding res by (rule strip_strip)
  from f1 f2 f3 f4 f5 show ?thesis by blast
qed

lemma preprocess_fixed:
  assumes f1: "\<forall>c \<in> set y. c = CHR '' '' \<or> \<not> py_isspace c"
    and f2: "\<forall>c \<in> set y. allowed c"
    and f3: "successively no_space_punct y"
    and f4: "successively no_ender_upper y"
    and f5: "strip y = y"
    and p: "successively no_double_blank y"
    and q: "foldl expand y medical_abbrevs = y"
  shows "preprocess_medical_text y = y"
proof -
  from f1 space_newline have nl: "newline \<notin> set y" by auto
  have e1: "re_sub (lit ''Page '' @ [plus is_digit, lazy_star not_newline, Ch (\<lambda>c. c = newline)])
      (\<lambda>m. '''') y = y"
    unfolding re_sub_def using header_unmatched nl by (rule sub_from_unmatched)
  have e2: "re_sub (lit ''Chapter '' @ [plus is_digit, lazy_star not_newline, Ch (\<lambda>c. c = newline)])
      (\<lambda>m. '''') y = y"
    unfolding re_sub_def using header_unmatched nl by (rule sub_from_unmatched)
  have e3: "re_sub [Ch (\<lambda>c. c = newline), plus is_digit, Ch (\<lambda>c. c = newline)]
      (\<lambda>m. [newline]) y = y"
    unfolding re_sub_def using nl by (intro sub_from_no_start) auto
  have e5: "re_sub [plus py_isspace] (\<lambda>m. '' '') y = y"
    unfolding re_sub_def using f1 p by (rule collapse_fixed)
  have e6: "re_sub [Ch (\<lambda>c. c = newline), star py_isspace, Ch (\<lambda>c. c = newline)]
      (\<lambda>m. [newline, newline]) y = y"
    unfolding re_sub_def using nl by (intro sub_from_no_start) auto
  have e7: "re_sub [Ch (\<lambda>c. \<not> allowed c)] (\<lambda>m. '' '') y = y"
    unfolding re_sub_def using f2 by (intro sub_from_no_start) auto
  have e8: "re_sub [plus py_isspace, Ch is_punct] (\<lambda>m. [last m]) y = y"
    unfolding re_sub_def using f3 by (rule space_punct_fixed)
  have e9: "re_sub [Ch is_ender, star py_isspace, Ch is_upper]
      (\<lambda>m. [hd m, CHR '' '', last m]) y = y"
    unfolding re_sub_def using sentence_capital_fixed[OF f1 p f4, of None 0] by simp
  show ?thesis
    unfolding preprocess_medical_text_def Let_def punct_class ender_class
    by (simp only: e1 e2 e3 q e5 e6 e7 e8 e9 f5)
qed

text \<open>
  A second pass of the normalizer changes nothing when the first pass has left
  neither two spaces in a row nor an abbreviation of the dictionary: the text that
  the first pass returns has no newline and no character outside the allowed set,
  no whitespace before punctuation and no sentence end directly before a capital,
  and every step of the second pass maps such a text to itself.
\<close>

lemma normalizer_second_pass:
  assumes "\<not> contains ''  '' (preprocess_medical_text x)"
    and "foldl expand (preprocess_medical_text x) medical_abbrevs = preprocess_medical_text x"
  shows "preprocess_medical_text (preprocess_medical_text x) = preprocess_medical_text x"
proof -
  note nf = preprocess_normal_form[of x]
  from assms(1) have "successively no_double_blank (preprocess_medical_text x)"
    by (rule contains_double_blank)
  with nf assms(2) show ?thesis by (intro preprocess_fixed) blast+
qed

lemma second_pass_instance:
  "preprocess_medical_text (preprocess_medical_text ''a (b)  c d'') =
     preprocess_medical_text ''a (b)  c d''"
proof (rule normalizer_second_pass)
  show "\<not> contains ''  '' (preprocess_medical_text ''a (b)  c d'')"
    unfolding hash_again by simp
  show "foldl expand (preprocess_medical_text ''a (b)  c d'') medical_abbrevs =
      preprocess_medical_text ''a (b)  c d''"
    unfolding hash_again
    by (simp add: eval_rules cong: option.case_cong_weak nat.case_cong_weak)
qed

end
